theory Spec2Isabelle
  imports Main
begin

section \<open>Refactoring-aware SZZ (\<open>ra_szz.py\<close>): the data\<close>

text \<open>
  The class \<open>RASZZ\<close> filters the blame of its base class by the refactorings that
  RefactoringMiner reports. Its three methods are \<open>_extract_refactorings\<close>,
  \<open>get_impacted_files\<close> and \<open>_blame\<close> (Isabelle identifiers cannot start with an
  underscore, so the models are \<open>extract_refactorings\<close> and \<open>blame\<close>).

  Every exception that the Python can raise in these methods is a value of \<open>error\<close>.
\<close>

datatype error =
    KeyError
  | TypeError
  | IndexError
  | ValueError
  | OSError
  | BaseError string

text \<open>
  \<open>ValueError\<close> stands for what \<open>out.decode('utf-8')\<close> and \<open>json.loads\<close> raise
  (UnicodeDecodeError and JSONDecodeError are both subclasses of it), \<open>OSError\<close> for what
  \<open>subprocess.check_output\<close> raises when the tool cannot be started, and
  \<open>BaseError\<close> for whatever the base class raises.
\<close>

subsection \<open>Parsed JSON and the Python operations applied to it\<close>

text \<open>
  What \<open>json.loads\<close> returns. An object is an association list read with \<open>map_of\<close>.
  Numbers are the integers: RefactoringMiner prints line numbers, and floating point
  values are outside this model.
\<close>

datatype json =
    JNull
  | JBool bool
  | JInt int
  | JStr string
  | JArr "json list"
  | JObj "(string \<times> json) list"

fun is_substring :: "string \<Rightarrow> string \<Rightarrow> bool" where
  "is_substring xs [] = (xs = [])"
| "is_substring xs (y # ys) = (take (length xs) (y # ys) = xs \<or> is_substring xs ys)"

text \<open>\<open>k in x\<close> for a string \<open>k\<close>.\<close>

fun py_contains :: "string \<Rightarrow> json \<Rightarrow> error + bool" where
  "py_contains k (JObj kvs) = Inr (map_of kvs k \<noteq> None)"
| "py_contains k (JArr xs) = Inr (JStr k \<in> set xs)"
| "py_contains k (JStr s) = Inr (is_substring k s)"
| "py_contains k _ = Inl TypeError"

text \<open>\<open>x[k]\<close> for a string \<open>k\<close>: only a dict takes a string subscript.\<close>

fun py_getitem :: "json \<Rightarrow> string \<Rightarrow> error + json" where
  "py_getitem (JObj kvs) k = (case map_of kvs k of None \<Rightarrow> Inl KeyError | Some v \<Rightarrow> Inr v)"
| "py_getitem _ k = Inl TypeError"

text \<open>\<open>len(x)\<close>.\<close>

fun py_len :: "json \<Rightarrow> error + nat" where
  "py_len (JObj kvs) = Inr (length (remdups (map fst kvs)))"
| "py_len (JArr xs) = Inr (length xs)"
| "py_len (JStr s) = Inr (length s)"
| "py_len _ = Inl TypeError"

text \<open>\<open>x[0]\<close>. The keys of a parsed JSON object are strings, so a dict has no key 0.\<close>

fun py_first :: "json \<Rightarrow> error + json" where
  "py_first (JArr []) = Inl IndexError"
| "py_first (JArr (x # xs)) = Inr x"
| "py_first (JStr []) = Inl IndexError"
| "py_first (JStr (c # cs)) = Inr (JStr [c])"
| "py_first (JObj kvs) = Inl KeyError"
| "py_first _ = Inl TypeError"

text \<open>\<open>for y in x\<close>: the elements of a list, the keys of a dict, the characters of a string.\<close>

fun py_iter :: "json \<Rightarrow> error + json list" where
  "py_iter (JArr xs) = Inr xs"
| "py_iter (JObj kvs) = Inr (map JStr (remdups (map fst kvs)))"
| "py_iter (JStr s) = Inr (map (\<lambda>c. JStr [c]) s)"
| "py_iter _ = Inl TypeError"

text \<open>The operand of an order comparison with an \<open>int\<close>: \<open>bool\<close> is a subclass of \<open>int\<close>.\<close>

fun py_int :: "json \<Rightarrow> error + int" where
  "py_int (JInt n) = Inr n"
| "py_int (JBool b) = Inr (if b then 1 else 0)"
| "py_int _ = Inl TypeError"

text \<open>
  The test of lines 62 and 108,
  \<open>path == file_path and line >= from_line and line <= to_line\<close>,
  with Python's short-circuit evaluation: a later comparison is only evaluated (and can
  only raise) when the earlier ones are true.
\<close>

definition in_region :: "json \<Rightarrow> json \<Rightarrow> json \<Rightarrow> string \<Rightarrow> int \<Rightarrow> error + bool" where
  "in_region file_path from_line to_line path line =
     (if file_path \<noteq> JStr path then Inr False
      else (case py_int from_line of
        Inl e \<Rightarrow> Inl e
      | Inr lo \<Rightarrow>
          if \<not> (lo \<le> line) then Inr False
          else (case py_int to_line of
            Inl e \<Rightarrow> Inl e
          | Inr hi \<Rightarrow> Inr (line \<le> hi))))"

subsection \<open>The objects of the program\<close>

text \<open>
  Modelled from the spec: the classes \<open>BlameData\<close> and \<open>ImpactedFile\<close> are declared in
  a module of the repository that is not among the sources. The spec gives a
  BlameAttribution the fields revision, file path, line number and content and treats
  the full tuple as the set element; an ImpactedFile has a file path and its modified
  lines. \<open>bd_commit\<close> is \<open>blame.commit.hexsha\<close>. The fields of the three records
  carry a prefix, since the fields of all records share one name space.
\<close>

record BlameData =
  bd_commit :: string
  bd_line_num :: int
  bd_line_str :: string
  bd_file_path :: string

record ImpactedFile =
  imp_file_path :: string
  imp_modified_lines :: "int list"

text \<open>Class \<open>ReblameCandidate\<close> (lines 141-145).\<close>

record ReblameCandidate =
  rc_rev :: string
  rc_file_path :: string
  rc_modified_lines :: "int list"

text \<open>
  What one run of RefactoringMiner (lines 33-34) can do: exit with an error status, run
  into the timeout, fail to start, or print something, which is parsed JSON or
  (\<open>None\<close>) text that \<open>json.loads\<close> rejects.
\<close>

datatype detector_outcome =
    CalledProcessError
  | TimeoutExpired
  | NotStarted
  | Stdout "json option"

text \<open>
  The state: the dictionary \<open>self.refactorings\<close>; the list objects that serve as
  ignore lists (a reference to one is an index into \<open>heap\<close>); and the revisions on
  which RefactoringMiner has been run so far, in order (every run is announced by the
  log message of line 30).
\<close>

record state =
  refactorings :: "string \<rightharpoonup> json"
  heap :: "string list list"
  refminer_runs :: "string list"

text \<open>
  The detector is a parameter. Its outcome may depend on the runs before it, so a
  revision that failed once may succeed when it is asked again.
\<close>

type_synonym detector = "string list \<Rightarrow> string \<Rightarrow> detector_outcome"

section \<open>The refactoring cache: \<open>_extract_refactorings\<close> (lines 25-45)\<close>

text \<open>
  Line 35, \<open>'commits' in data and len(data['commits']) > 0 and
  'refactorings' in data['commits'][0]\<close>, and line 36. \<open>Inr None\<close> is the
  \<open>else\<close> branch; an \<open>Inl\<close> is an exception that no \<open>except\<close> clause of the method
  catches.
\<close>

definition refactorings_of_data :: "json \<Rightarrow> error + json option" where
  "refactorings_of_data data =
     (case py_contains ''commits'' data of
        Inl e \<Rightarrow> Inl e
      | Inr False \<Rightarrow> Inr None
      | Inr True \<Rightarrow>
         (case py_getitem data ''commits'' of
            Inl e \<Rightarrow> Inl e
          | Inr cs \<Rightarrow>
             (case py_len cs of
                Inl e \<Rightarrow> Inl e
              | Inr n \<Rightarrow>
                 if \<not> (0 < n) then Inr None
                 else (case py_first cs of
                    Inl e \<Rightarrow> Inl e
                  | Inr c0 \<Rightarrow>
                     (case py_contains ''refactorings'' c0 of
                        Inl e \<Rightarrow> Inl e
                      | Inr False \<Rightarrow> Inr None
                      | Inr True \<Rightarrow>
                         (case py_getitem c0 ''refactorings'' of
                            Inl e \<Rightarrow> Inl e
                          | Inr r \<Rightarrow> Inr (Some r)))))))"

text \<open>
  The \<open>try\<close> statement of lines 32-45 for one revision: \<open>Inr (Some v)\<close> stores \<open>v\<close>,
  \<open>Inr None\<close> stores nothing, \<open>Inl e\<close> leaves the method with the exception \<open>e\<close>.
  Only CalledProcessError and TimeoutExpired are caught, and the handler of the first
  (lines 41-42) only logs.
\<close>

fun try_refminer :: "detector_outcome \<Rightarrow> error + json option" where
  "try_refminer CalledProcessError = Inr None"
| "try_refminer TimeoutExpired = Inr (Some (JArr []))"
| "try_refminer NotStarted = Inl OSError"
| "try_refminer (Stdout None) = Inl ValueError"
| "try_refminer (Stdout (Some data)) =
     (case refactorings_of_data data of
        Inl e \<Rightarrow> Inl e
      | Inr None \<Rightarrow> Inr (Some (JArr []))
      | Inr (Some r) \<Rightarrow> Inr (Some r))"

fun extract_refactorings :: "detector \<Rightarrow> string list \<Rightarrow> state \<Rightarrow> (error + unit) \<times> state" where
  "extract_refactorings detect [] st = (Inr (), st)"
| "extract_refactorings detect (c # commits) st =
     (if refactorings st c \<noteq> None then extract_refactorings detect commits st
      else
        let st1 = st\<lparr>refminer_runs := refminer_runs st @ [c]\<rparr> in
        case try_refminer (detect (refminer_runs st) c) of
          Inl e \<Rightarrow> (Inl e, st1)
        | Inr None \<Rightarrow> extract_refactorings detect commits st1
        | Inr (Some v) \<Rightarrow>
            extract_refactorings detect commits (st1\<lparr>refactorings := (refactorings st1)(c \<mapsto> v)\<rparr>))"

section \<open>The impacted files: \<open>get_impacted_files\<close> (lines 47-68)\<close>

text \<open>
  Lines 60-64 for one file: the lines that go into \<open>lines_to_remove\<close>. The log message
  of line 63 reads \<open>refactoring["type"]\<close>, which raises when the key is missing.
\<close>

fun lines_to_remove ::
  "json \<Rightarrow> json \<Rightarrow> json \<Rightarrow> json \<Rightarrow> string \<Rightarrow> int list \<Rightarrow> error + int list" where
  "lines_to_remove refactoring file_path from_line to_line path [] = Inr []"
| "lines_to_remove refactoring file_path from_line to_line path (modified_line # ls) =
     (case in_region file_path from_line to_line path modified_line of
        Inl e \<Rightarrow> Inl e
      | Inr False \<Rightarrow> lines_to_remove refactoring file_path from_line to_line path ls
      | Inr True \<Rightarrow>
         (case py_getitem refactoring ''type'' of
            Inl e \<Rightarrow> Inl e
          | Inr ty \<Rightarrow>
             (case lines_to_remove refactoring file_path from_line to_line path ls of
                Inl e \<Rightarrow> Inl e
              | Inr rm \<Rightarrow> Inr (modified_line # rm))))"

text \<open>Lines 59-65: every file is updated in place; the model returns the updated files.\<close>

fun strip_files ::
  "json \<Rightarrow> json \<Rightarrow> json \<Rightarrow> json \<Rightarrow> ImpactedFile list \<Rightarrow> error + ImpactedFile list" where
  "strip_files refactoring file_path from_line to_line [] = Inr []"
| "strip_files refactoring file_path from_line to_line (f # fs) =
     (case lines_to_remove refactoring file_path from_line to_line
             (imp_file_path f) (imp_modified_lines f) of
        Inl e \<Rightarrow> Inl e
      | Inr rm \<Rightarrow>
         (case strip_files refactoring file_path from_line to_line fs of
            Inl e \<Rightarrow> Inl e
          | Inr fs' \<Rightarrow>
              Inr (f\<lparr>imp_modified_lines := filter (\<lambda>line. line \<notin> set rm) (imp_modified_lines f)\<rparr>
                   # fs')))"

text \<open>Lines 55-65: the loop over the locations of one refactoring.\<close>

fun strip_locations :: "json \<Rightarrow> json list \<Rightarrow> ImpactedFile list \<Rightarrow> error + ImpactedFile list" where
  "strip_locations refactoring [] fs = Inr fs"
| "strip_locations refactoring (location # ls) fs =
     (case py_getitem location ''filePath'' of
        Inl e \<Rightarrow> Inl e
      | Inr file_path \<Rightarrow>
     (case py_getitem location ''startLine'' of
        Inl e \<Rightarrow> Inl e
      | Inr from_line \<Rightarrow>
     (case py_getitem location ''endLine'' of
        Inl e \<Rightarrow> Inl e
      | Inr to_line \<Rightarrow>
     (case strip_files refactoring file_path from_line to_line fs of
        Inl e \<Rightarrow> Inl e
      | Inr fs' \<Rightarrow> strip_locations refactoring ls fs'))))"

text \<open>Lines 54-65: the loop over the refactorings of the fix commit.\<close>

fun strip_refactorings :: "json list \<Rightarrow> ImpactedFile list \<Rightarrow> error + ImpactedFile list" where
  "strip_refactorings [] fs = Inr fs"
| "strip_refactorings (refactoring # rs) fs =
     (case py_getitem refactoring ''rightSideLocations'' of
        Inl e \<Rightarrow> Inl e
      | Inr locations \<Rightarrow>
     (case py_iter locations of
        Inl e \<Rightarrow> Inl e
      | Inr ls \<Rightarrow>
     (case strip_locations refactoring ls fs of
        Inl e \<Rightarrow> Inl e
      | Inr fs' \<Rightarrow> strip_refactorings rs fs')))"

text \<open>
  The method. The base class's \<open>get_impacted_files\<close> is a parameter (its other two
  arguments are passed on unchanged and are part of it); the objects it returns are
  collected in a set and keep their identity, so the set is the list of them in the
  order in which the set is iterated.
\<close>

definition get_impacted_files ::
  "detector \<Rightarrow> (string \<Rightarrow> error + ImpactedFile list) \<Rightarrow> string \<Rightarrow> state
     \<Rightarrow> (error + ImpactedFile list) \<times> state" where
  "get_impacted_files detect base_impacted_files fix_commit_hash st =
     (case base_impacted_files fix_commit_hash of
        Inl e \<Rightarrow> (Inl e, st)
      | Inr impacted_files \<Rightarrow>
         (case extract_refactorings detect [fix_commit_hash] st of
            (Inl e, st1) \<Rightarrow> (Inl e, st1)
          | (Inr u, st1) \<Rightarrow>
             (case refactorings st1 fix_commit_hash of
                None \<Rightarrow> (Inl KeyError, st1)
              | Some entry \<Rightarrow>
                 (case py_iter entry of
                    Inl e \<Rightarrow> (Inl e, st1)
                  | Inr rs \<Rightarrow>
                     (case strip_refactorings rs impacted_files of
                        Inl e \<Rightarrow> (Inl e, st1)
                      | Inr fs \<Rightarrow>
                          (Inr (filter (\<lambda>f. 0 < length (imp_modified_lines f)) fs), st1))))))"

section \<open>The recursive blame: \<open>_blame\<close> (lines 70-139)\<close>

text \<open>
  What a call did besides changing the state, in order: \<open>SuperBlame\<close> is the call of
  the base class's blame (lines 82-92) with the revision, the path, the lines and the
  value of the ignore list at that moment; \<open>CycleGuard\<close> is the \<open>continue\<close> of line
  122 with the request that it skips. The events are an output only: no function of
  the model reads them.
\<close>

datatype event =
    SuperBlame string string "int list" "string list option"
  | CycleGuard string string "int list"

type_synonym outcome = "(error + BlameData set) \<times> state \<times> event list"

definition after :: "event list \<Rightarrow> outcome option \<Rightarrow> outcome option" where
  "after evs x = map_option (\<lambda>(r, st, evs'). (r, st, evs @ evs')) x"

text \<open>
  The base class's \<open>_blame\<close> is a parameter: it gets the five arguments that
  \<open>RASZZ._blame\<close> passes on unchanged (as one value of any type), the revision, the
  path, the lines and the ignore list (\<open>None\<close> or a list), and returns the
  attributions or raises. It returns a set; the model takes the elements in the order
  in which the set is iterated and drops repetitions.
\<close>

type_synonym 'o base_blame =
  "'o \<Rightarrow> string \<Rightarrow> string \<Rightarrow> int list \<Rightarrow> string list option \<Rightarrow> error + BlameData list"

text \<open>
  The dictionary \<open>to_reblame\<close> keeps its keys in the order of insertion. Lines 110-113:
  the key is \<open>hexsha + "@" + file_path\<close>; a new key gets a candidate with the one line,
  an old one gets the line appended.
\<close>

definition reblame_key :: "BlameData \<Rightarrow> string" where
  "reblame_key blame = bd_commit blame @ ''@'' @ bd_file_path blame"

definition add_reblame ::
  "BlameData \<Rightarrow> (string \<times> ReblameCandidate) list \<Rightarrow> (string \<times> ReblameCandidate) list" where
  "add_reblame blame to_reblame =
     (if map_of to_reblame (reblame_key blame) = None
      then to_reblame @
        [(reblame_key blame,
          \<lparr>rc_rev = bd_commit blame, rc_file_path = bd_file_path blame,
           rc_modified_lines = [bd_line_num blame]\<rparr>)]
      else map (\<lambda>(k, c).
             if k = reblame_key blame
             then (k, c\<lparr>rc_modified_lines := rc_modified_lines c @ [bd_line_num blame]\<rparr>)
             else (k, c)) to_reblame)"

text \<open>Lines 103-114: the locations of one refactoring, for one attribution.\<close>

fun scan_locations ::
  "BlameData \<Rightarrow> json \<Rightarrow> json list \<Rightarrow> bool \<times> (string \<times> ReblameCandidate) list
     \<Rightarrow> error + bool \<times> (string \<times> ReblameCandidate) list" where
  "scan_locations blame refactoring [] acc = Inr acc"
| "scan_locations blame refactoring (location # ls) (can_add, to_reblame) =
     (case py_getitem location ''filePath'' of
        Inl e \<Rightarrow> Inl e
      | Inr file_path \<Rightarrow>
     (case py_getitem location ''startLine'' of
        Inl e \<Rightarrow> Inl e
      | Inr from_line \<Rightarrow>
     (case py_getitem location ''endLine'' of
        Inl e \<Rightarrow> Inl e
      | Inr to_line \<Rightarrow>
     (case in_region file_path from_line to_line (bd_file_path blame) (bd_line_num blame) of
        Inl e \<Rightarrow> Inl e
      | Inr False \<Rightarrow> scan_locations blame refactoring ls (can_add, to_reblame)
      | Inr True \<Rightarrow>
         (case py_getitem refactoring ''type'' of
            Inl e \<Rightarrow> Inl e
          | Inr ty \<Rightarrow>
              scan_locations blame refactoring ls (False, add_reblame blame to_reblame))))))"

text \<open>Lines 102-114: the refactorings of the attribution's revision.\<close>

fun scan_refactorings ::
  "BlameData \<Rightarrow> json list \<Rightarrow> bool \<times> (string \<times> ReblameCandidate) list
     \<Rightarrow> error + bool \<times> (string \<times> ReblameCandidate) list" where
  "scan_refactorings blame [] acc = Inr acc"
| "scan_refactorings blame (refactoring # rs) acc =
     (case py_getitem refactoring ''rightSideLocations'' of
        Inl e \<Rightarrow> Inl e
      | Inr locations \<Rightarrow>
     (case py_iter locations of
        Inl e \<Rightarrow> Inl e
      | Inr ls \<Rightarrow>
     (case scan_locations blame refactoring ls acc of
        Inl e \<Rightarrow> Inl e
      | Inr acc' \<Rightarrow> scan_refactorings blame rs acc')))"

text \<open>
  Lines 100-117: the loop over the candidates. The lookup of line 102 raises KeyError
  for a revision without an entry.
\<close>

fun filter_candidates ::
  "(string \<rightharpoonup> json) \<Rightarrow> BlameData list \<Rightarrow> BlameData set \<times> (string \<times> ReblameCandidate) list
     \<Rightarrow> error + BlameData set \<times> (string \<times> ReblameCandidate) list" where
  "filter_candidates cache [] acc = Inr acc"
| "filter_candidates cache (blame # bs) (result_blame_data, to_reblame) =
     (case cache (bd_commit blame) of
        None \<Rightarrow> Inl KeyError
      | Some entry \<Rightarrow>
     (case py_iter entry of
        Inl e \<Rightarrow> Inl e
      | Inr rs \<Rightarrow>
     (case scan_refactorings blame rs (True, to_reblame) of
        Inl e \<Rightarrow> Inl e
      | Inr (can_add, to_reblame') \<Rightarrow>
          filter_candidates cache bs
            (if can_add then insert blame result_blame_data else result_blame_data,
             to_reblame'))))"

text \<open>
  \<open>ignore_revs_list.copy()\<close> allocates a new list object with the same elements and
  returns the reference to it; \<open>append\<close> changes the object in place.
\<close>

definition list_copy :: "nat \<Rightarrow> state \<Rightarrow> nat \<times> state" where
  "list_copy a st = (length (heap st), st\<lparr>heap := heap st @ [heap st ! a]\<rparr>)"

definition list_append :: "nat \<Rightarrow> string \<Rightarrow> state \<Rightarrow> state" where
  "list_append a x st = st\<lparr>heap := (heap st)[a := heap st ! a @ [x]]\<rparr>"

text \<open>
  Lines 119-137: the loop over the requests. \<open>self_blame\<close> is the recursive call of
  \<open>self._blame\<close>; \<open>ignore_revs_list\<close> is \<open>None\<close> or a reference. The membership test
  of line 121 raises TypeError on \<open>None\<close>. \<open>None\<close> as the result of the whole loop
  means that the recursion did not come back.
\<close>

fun reblame_loop ::
  "(string \<Rightarrow> string \<Rightarrow> int list \<Rightarrow> nat option \<Rightarrow> state \<Rightarrow> outcome option)
     \<Rightarrow> nat option \<Rightarrow> ReblameCandidate list \<Rightarrow> BlameData set \<Rightarrow> state \<Rightarrow> outcome option" where
  "reblame_loop self_blame ignore_revs_list [] result_blame_data st =
     Some (Inr result_blame_data, st, [])"
| "reblame_loop self_blame ignore_revs_list (c # cs) result_blame_data st =
     (case ignore_revs_list of
        None \<Rightarrow> Some (Inl TypeError, st, [])
      | Some a \<Rightarrow>
          if rc_rev c \<in> set (heap st ! a)
          then after [CycleGuard (rc_rev c) (rc_file_path c) (rc_modified_lines c)]
                 (reblame_loop self_blame ignore_revs_list cs result_blame_data st)
          else
            (case list_copy a st of
               (new_ignore_revs_list, st1) \<Rightarrow>
            (case self_blame (rc_rev c) (rc_file_path c) (rc_modified_lines c)
                    (Some new_ignore_revs_list)
                    (list_append new_ignore_revs_list (rc_rev c) st1) of
               None \<Rightarrow> None
             | Some (Inl e, st3, evs) \<Rightarrow> Some (Inl e, st3, evs)
             | Some (Inr new_blame_results, st3, evs) \<Rightarrow>
                 after evs
                   (reblame_loop self_blame ignore_revs_list cs
                      (result_blame_data \<union> new_blame_results) st3))))"

text \<open>
  The method. The recursion need not end (the base class may name a new revision at
  every depth), so the model counts the depth down: \<open>fuel\<close> is the number of nested
  calls that are allowed, and \<open>None\<close> says that they were not enough. Python's own
  limit on the depth of recursion is not modelled.
\<close>

primrec blame ::
  "detector \<Rightarrow> 'o base_blame \<Rightarrow> 'o \<Rightarrow> nat
     \<Rightarrow> string \<Rightarrow> string \<Rightarrow> int list \<Rightarrow> nat option \<Rightarrow> state \<Rightarrow> outcome option" where
  "blame detect base opts 0 = (\<lambda>revision file_path modified_lines ignore_revs_list st. None)"
| "blame detect base opts (Suc fuel) = (\<lambda>revision file_path modified_lines ignore_revs_list st.
     let ignore_value = map_option (\<lambda>a. heap st ! a) ignore_revs_list in
     after [SuperBlame revision file_path modified_lines ignore_value]
       (case base opts revision file_path modified_lines ignore_value of
          Inl e \<Rightarrow> Some (Inl e, st, [])
        | Inr candidate_blame_data \<Rightarrow>
           (let candidates = remdups candidate_blame_data;
                commits = remdups (map bd_commit candidates)
            in case extract_refactorings detect commits st of
              (Inl e, st1) \<Rightarrow> Some (Inl e, st1, [])
            | (Inr u, st1) \<Rightarrow>
               (case filter_candidates (refactorings st1) candidates ({}, []) of
                  Inl e \<Rightarrow> Some (Inl e, st1, [])
                | Inr (result_blame_data, to_reblame) \<Rightarrow>
                    reblame_loop (blame detect base opts fuel) ignore_revs_list
                      (map snd to_reblame) result_blame_data st1))))"

section \<open>The recursion in the words of the spec\<close>

text \<open>
  The recursion as section 4.3 of the spec words it: the ignore set is a value, and a
  request that is not dropped is answered by
  \<open>blame(r.revision, r.file_path, r.modified_lines, ignore_set + [r.revision])\<close>.
  Steps 1 to 3 are those of the code.
\<close>

fun reblame_loop_spec ::
  "(string \<Rightarrow> string \<Rightarrow> int list \<Rightarrow> string list \<Rightarrow> state \<Rightarrow> outcome option)
     \<Rightarrow> string list \<Rightarrow> ReblameCandidate list \<Rightarrow> BlameData set \<Rightarrow> state \<Rightarrow> outcome option" where
  "reblame_loop_spec blame_rec ignore_set [] accepted_set st = Some (Inr accepted_set, st, [])"
| "reblame_loop_spec blame_rec ignore_set (r # rs) accepted_set st =
     (if rc_rev r \<in> set ignore_set
      then after [CycleGuard (rc_rev r) (rc_file_path r) (rc_modified_lines r)]
             (reblame_loop_spec blame_rec ignore_set rs accepted_set st)
      else
        (case blame_rec (rc_rev r) (rc_file_path r) (rc_modified_lines r)
                (ignore_set @ [rc_rev r]) st of
           None \<Rightarrow> None
         | Some (Inl e, st3, evs) \<Rightarrow> Some (Inl e, st3, evs)
         | Some (Inr sub_result, st3, evs) \<Rightarrow>
             after evs
               (reblame_loop_spec blame_rec ignore_set rs (accepted_set \<union> sub_result) st3)))"

primrec blame_spec ::
  "detector \<Rightarrow> 'o base_blame \<Rightarrow> 'o \<Rightarrow> nat
     \<Rightarrow> string \<Rightarrow> string \<Rightarrow> int list \<Rightarrow> string list \<Rightarrow> state \<Rightarrow> outcome option" where
  "blame_spec detect base opts 0 = (\<lambda>revision file_path modified_lines ignore_set st. None)"
| "blame_spec detect base opts (Suc fuel) = (\<lambda>revision file_path modified_lines ignore_set st.
     after [SuperBlame revision file_path modified_lines (Some ignore_set)]
       (case base opts revision file_path modified_lines (Some ignore_set) of
          Inl e \<Rightarrow> Some (Inl e, st, [])
        | Inr candidate_set \<Rightarrow>
           (let candidates = remdups candidate_set;
                commits = remdups (map bd_commit candidates)
            in case extract_refactorings detect commits st of
              (Inl e, st1) \<Rightarrow> Some (Inl e, st1, [])
            | (Inr u, st1) \<Rightarrow>
               (case filter_candidates (refactorings st1) candidates ({}, []) of
                  Inl e \<Rightarrow> Some (Inl e, st1, [])
                | Inr (accepted_set, requests) \<Rightarrow>
                    reblame_loop_spec (blame_spec detect base opts fuel) ignore_set
                      (map snd requests) accepted_set st1))))"

section \<open>Regions\<close>

text \<open>
  The regions (right side locations) of one refactoring operation and of all the
  operations in a cache entry, and the test whether a region covers a line of a file.
  Where the Python would raise on an entry, the entry has no regions here; the
  theorems below are about runs that did not raise.
\<close>

definition locations_of :: "json \<Rightarrow> json list" where
  "locations_of refactoring =
     (case py_getitem refactoring ''rightSideLocations'' of
        Inl e \<Rightarrow> []
      | Inr locations \<Rightarrow> (case py_iter locations of Inl e \<Rightarrow> [] | Inr ls \<Rightarrow> ls))"

definition regions_of :: "json \<Rightarrow> json list" where
  "regions_of entry =
     (case py_iter entry of Inl e \<Rightarrow> [] | Inr rs \<Rightarrow> concat (map locations_of rs))"

definition covers :: "json \<Rightarrow> string \<Rightarrow> int \<Rightarrow> bool" where
  "covers location path line =
     (case py_getitem location ''filePath'' of
        Inl e \<Rightarrow> False
      | Inr fp \<Rightarrow>
     (case py_getitem location ''startLine'' of
        Inl e \<Rightarrow> False
      | Inr a \<Rightarrow>
     (case py_getitem location ''endLine'' of
        Inl e \<Rightarrow> False
      | Inr b \<Rightarrow> in_region fp a b path line = Inr True)))"

definition covered :: "json \<Rightarrow> string \<Rightarrow> int \<Rightarrow> bool" where
  "covered entry path line = list_ex (\<lambda>location. covers location path line) (regions_of entry)"

text \<open>An impacted file without the lines that \<open>hit\<close> selects.\<close>

definition strip :: "(string \<Rightarrow> int \<Rightarrow> bool) \<Rightarrow> ImpactedFile \<Rightarrow> ImpactedFile" where
  "strip hit f =
     f\<lparr>imp_modified_lines := filter (\<lambda>l. \<not> hit (imp_file_path f) l) (imp_modified_lines f)\<rparr>"

text \<open>
  Some region in the list covers the attribution's line; an attribution is accepted
  by a cache when its revision has an entry none of whose regions covers its line.
\<close>

definition hit :: "BlameData \<Rightarrow> json list \<Rightarrow> bool" where
  "hit b ls = list_ex (\<lambda>loc. covers loc (bd_file_path b) (bd_line_num b)) ls"

definition accepted :: "(string \<rightharpoonup> json) \<Rightarrow> BlameData \<Rightarrow> bool" where
  "accepted cache b =
     (case cache (bd_commit b) of
        None \<Rightarrow> False
      | Some entry \<Rightarrow> \<not> covered entry (bd_file_path b) (bd_line_num b))"

text \<open>
  The attribution's revision has a cache entry, and a region of it covers the
  attribution's line.
\<close>

definition in_refactoring :: "(string \<rightharpoonup> json) \<Rightarrow> BlameData \<Rightarrow> bool" where
  "in_refactoring cache b =
     (case cache (bd_commit b) of
        None \<Rightarrow> False
      | Some entry \<Rightarrow> covered entry (bd_file_path b) (bd_line_num b))"

text \<open>
  \<open>to_reblame\<close> holds the requests for the covered attributions \<open>S\<close>: its keys differ,
  every request has the revision and the path of an attribution of \<open>S\<close> with its key
  and, as a set, the lines of all attributions of \<open>S\<close> with its key, and every
  attribution of \<open>S\<close> has a request.
\<close>

definition requests_of :: "BlameData set \<Rightarrow> (string \<times> ReblameCandidate) list \<Rightarrow> bool" where
  "requests_of S to_reblame =
     (distinct (map fst to_reblame)
      \<and> (\<forall>k. case map_of to_reblame k of
            None \<Rightarrow> \<forall>b \<in> S. reblame_key b \<noteq> k
          | Some c \<Rightarrow>
              (\<exists>b \<in> S. reblame_key b = k \<and> bd_commit b = rc_rev c \<and> bd_file_path b = rc_file_path c)
              \<and> set (rc_modified_lines c) = bd_line_num ` {b \<in> S. reblame_key b = k}))"

text \<open>
  The list of lines that \<open>to_reblame\<close> holds for a key; the regions of the attribution's
  revision that cover its line, one for every time the line is appended; and what the
  scan of a list of regions appends under a key for one attribution.
\<close>

definition request_lines :: "(string \<times> ReblameCandidate) list \<Rightarrow> string \<Rightarrow> int list" where
  "request_lines to_reblame k =
     (case map_of to_reblame k of None \<Rightarrow> [] | Some c \<Rightarrow> rc_modified_lines c)"

definition covering :: "(string \<rightharpoonup> json) \<Rightarrow> BlameData \<Rightarrow> json list" where
  "covering cache b =
     (case cache (bd_commit b) of
        None \<Rightarrow> []
      | Some entry \<Rightarrow>
          filter (\<lambda>location. covers location (bd_file_path b) (bd_line_num b)) (regions_of entry))"

definition appended :: "BlameData \<Rightarrow> json list \<Rightarrow> string \<Rightarrow> int list" where
  "appended b ls k =
     (if k = reblame_key b
      then replicate (length (filter (\<lambda>loc. covers loc (bd_file_path b) (bd_line_num b)) ls))
             (bd_line_num b)
      else [])"

text \<open>
  One state extends another: the entries of the cache are kept, list objects are only
  added, and so are runs of RefactoringMiner.
\<close>

definition extends :: "state \<Rightarrow> state \<Rightarrow> bool" where
  "extends st st' =
     ((\<forall>c v. refactorings st c = Some v \<longrightarrow> refactorings st' c = Some v)
      \<and> (\<exists>new. heap st' = heap st @ new)
      \<and> (\<exists>new. refminer_runs st' = refminer_runs st @ new))"

section \<open>Ignore lists\<close>

text \<open>
  A reference to an ignore list points to an allocated list object (\<open>None\<close> is no
  reference); the value of the ignore list is what the reference points to.
\<close>

definition valid_ref :: "nat option \<Rightarrow> state \<Rightarrow> bool" where
  "valid_ref ign st = (case ign of None \<Rightarrow> True | Some a \<Rightarrow> a < length (heap st))"

definition ignore_value :: "nat option \<Rightarrow> state \<Rightarrow> string list option" where
  "ignore_value ign st = map_option (\<lambda>a. heap st ! a) ign"

text \<open>
  An event lies on a path that starts from the ignore list \<open>init\<close>: the base class was
  called with \<open>init\<close> followed by revisions that are pairwise different and not in
  \<open>init\<close> (with \<open>None\<close> if \<open>init\<close> is \<open>None\<close>).
\<close>

definition on_path :: "string list option \<Rightarrow> event \<Rightarrow> bool" where
  "on_path init e =
     (case e of
        CycleGuard r p ls \<Rightarrow> True
      | SuperBlame r p ls ig \<Rightarrow>
         (case init of
            None \<Rightarrow> ig = None
          | Some l \<Rightarrow>
             (case ig of
                None \<Rightarrow> False
              | Some l' \<Rightarrow> take (length l) l' = l
                  \<and> distinct (drop (length l) l')
                  \<and> set (drop (length l) l') \<inter> set l = {})))"

section \<open>Outcomes\<close>



text \<open>An outcome with the list objects replaced by \<open>h\<close>.\<close>

definition with_heap :: "string list list \<Rightarrow> outcome option \<Rightarrow> outcome option" where
  "with_heap h x = map_option (\<lambda>(r, st, evs). (r, st\<lparr>heap := h\<rparr>, evs)) x"

text \<open>The lines of the requests that the cycle guard skipped.\<close>

fun dropped :: "event \<Rightarrow> int set" where
  "dropped (CycleGuard r p ls) = set ls"
| "dropped (SuperBlame r p ls ig) = {}"

definition dropped_lines :: "event list \<Rightarrow> int set" where
  "dropped_lines evs = (\<Union>e \<in> set evs. dropped e)"

section \<open>Example data\<close>

definition empty_state :: state where
  "empty_state = \<lparr>refactorings = Map.empty, heap = [], refminer_runs = []\<rparr>"

definition cached_state :: state where
  "cached_state = \<lparr>refactorings = [''a'' \<mapsto> JArr []], heap = [], refminer_runs = []\<rparr>"

definition detector_fails :: detector where
  "detector_fails runs c = CalledProcessError"

definition detector_times_out :: detector where
  "detector_times_out runs c = TimeoutExpired"

definition base_files_345 :: "string \<Rightarrow> error + ImpactedFile list" where
  "base_files_345 c = Inr [\<lparr>imp_file_path = ''f.java'', imp_modified_lines = [3, 4, 5]\<rparr>]"

text \<open>
  What RefactoringMiner prints for a revision with one refactoring whose only region
  is the lines \<open>a\<close> to \<open>b\<close> of \<open>f.java\<close>.
\<close>

definition region :: "int \<Rightarrow> int \<Rightarrow> json" where
  "region a b = JObj [(''filePath'', JStr ''f.java''), (''startLine'', JInt a), (''endLine'', JInt b)]"

definition refminer_output :: "json list \<Rightarrow> json" where
  "refminer_output regions =
     JObj [(''commits'', JArr [JObj [(''refactorings'',
       JArr [JObj [(''type'', JStr ''Rename Method''), (''rightSideLocations'', JArr regions)]])]])]"

definition detector_region :: "int \<Rightarrow> int \<Rightarrow> detector" where
  "detector_region a b runs c = Stdout (Some (refminer_output [region a b]))"

text \<open>
  Scenarios B and C of the spec. Line 10 of \<open>f.java\<close> is attributed to \<open>R1\<close>, whose
  refactoring covers lines 5 to 15. In B the base class finds \<open>R0\<close> once \<open>R1\<close> is
  ignored; in C it names \<open>R1\<close> again. The ignore list of the caller is the empty list
  at reference 0.
\<close>

definition attribution :: "string \<Rightarrow> int \<Rightarrow> BlameData" where
  "attribution c l = \<lparr>bd_commit = c, bd_line_num = l, bd_line_str = ''x'', bd_file_path = ''f.java''\<rparr>"

definition one_list_state :: state where
  "one_list_state = \<lparr>refactorings = Map.empty, heap = [[]], refminer_runs = []\<rparr>"

definition base_B :: "unit base_blame" where
  "base_B opts revision path lines ign =
     (if ''R1'' \<in> set (case ign of None \<Rightarrow> [] | Some l \<Rightarrow> l)
      then Inr [attribution ''R0'' 10] else Inr [attribution ''R1'' 10])"

definition base_C :: "unit base_blame" where
  "base_C opts revision path lines ign = Inr [attribution ''R1'' 10]"

definition detector_B :: detector where
  "detector_B runs c =
     (if c = ''R1'' then Stdout (Some (refminer_output [region 5 15]))
      else Stdout (Some (refminer_output [])))"

text \<open>
  A cache entry with one refactoring and the given regions; a cache in which two
  regions of \<open>R1\<close> overlap on lines 8 to 12; a request for lines of \<open>f.java\<close> at \<open>R1\<close>.
\<close>

definition refactorings_entry :: "json list \<Rightarrow> json" where
  "refactorings_entry regions =
     JArr [JObj [(''type'', JStr ''Rename Method''), (''rightSideLocations'', JArr regions)]]"

definition cache_two_regions :: "string \<rightharpoonup> json" where
  "cache_two_regions = [''R1'' \<mapsto> refactorings_entry [region 5 15, region 8 12]]"

definition request_R1 :: "int list \<Rightarrow> ReblameCandidate" where
  "request_R1 ls = \<lparr>rc_rev = ''R1'', rc_file_path = ''f.java'', rc_modified_lines = ls\<rparr>"


text \<open>
  A base class that attributes lines 10 and 11 to two revisions \<open>R1\<close> and \<open>R3\<close> while
  nothing is ignored, and every line to \<open>R0\<close> otherwise; all revisions but \<open>R0\<close> have
  the refactoring of lines 5 to 15.
\<close>

definition base_two :: "unit base_blame" where
  "base_two opts revision path lines ign =
     (if ign = Some [] then Inr [attribution ''R1'' 10, attribution ''R3'' 11]
      else Inr (map (attribution ''R0'') lines))"

definition detector_two :: detector where
  "detector_two runs c =
     (if c = ''R0'' then Stdout (Some (refminer_output []))
      else Stdout (Some (refminer_output [region 5 15])))"

text \<open>
  A base class that attributes every line to \<open>R1\<close> whatever it is told to ignore, and
  one that answers with the line's number in the older revision, as \<open>git blame\<close> does
  when lines were inserted above it.
\<close>

definition base_stuck :: "unit base_blame" where
  "base_stuck opts revision path lines ign = Inr (map (attribution ''R1'') lines)"

definition base_moved :: "unit base_blame" where
  "base_moved opts revision path lines ign = Inr [attribution ''R0'' 7]"



text \<open>
  A region of any file, and a cache for two revisions, one of which contains the
  separator of the key.
\<close>

definition region_in :: "string \<Rightarrow> int \<Rightarrow> int \<Rightarrow> json" where
  "region_in path a b =
     JObj [(''filePath'', JStr path), (''startLine'', JInt a), (''endLine'', JInt b)]"

definition cache_collision :: "string \<rightharpoonup> json" where
  "cache_collision =
     [''a@b'' \<mapsto> refactorings_entry [region_in ''c'' 1 1],
      ''a'' \<mapsto> refactorings_entry [region_in ''b@c'' 2 2]]"

section \<open>Properties of the cache\<close>

lemma extract_refactorings_cached:
  "refactorings st c = Some v \<Longrightarrow>
   refactorings (snd (extract_refactorings detect commits st)) c = Some v"
proof (induction commits arbitrary: st)
  case Nil
  then show ?case by simp
next
  case (Cons d commits)
  show ?case
    using Cons.prems
    by (auto simp: Let_def split: sum.splits option.splits intro!: Cons.IH)
qed

lemma extract_refactorings_heap:
  "heap (snd (extract_refactorings detect commits st)) = heap st"
  by (induction commits arbitrary: st) (auto simp: Let_def split: sum.splits option.splits)

lemma extract_refactorings_runs:
  "\<exists>new. refminer_runs (snd (extract_refactorings detect commits st)) = refminer_runs st @ new
     \<and> (\<forall>c \<in> set new. c \<in> set commits \<and> refactorings st c = None)"
proof (induction commits arbitrary: st)
  case Nil
  then show ?case by simp
next
  case (Cons d commits)
  show ?case
  proof (cases "refactorings st d \<noteq> None")
    case True
    from Cons.IH [of st] obtain new where
      "refminer_runs (snd (extract_refactorings detect commits st)) = refminer_runs st @ new"
      "\<forall>c \<in> set new. c \<in> set commits \<and> refactorings st c = None"
      by blast
    with True show ?thesis by auto
  next
    case False
    define st1 where "st1 = st\<lparr>refminer_runs := refminer_runs st @ [d]\<rparr>"
    show ?thesis
    proof (cases "try_refminer (detect (refminer_runs st) d)")
      case (Inl e)
      with False have "refminer_runs (snd (extract_refactorings detect (d # commits) st))
          = refminer_runs st @ [d]"
        by (simp add: Let_def)
      moreover have "\<forall>c \<in> set [d]. c \<in> set (d # commits) \<and> refactorings st c = None"
        using False by simp
      ultimately show ?thesis by blast
    next
      case (Inr r)
      define st2 where "st2 = (case r of None \<Rightarrow> st1
         | Some v \<Rightarrow> st1\<lparr>refactorings := (refactorings st1)(d \<mapsto> v)\<rparr>)"
      have step: "extract_refactorings detect (d # commits) st
          = extract_refactorings detect commits st2"
        using False Inr by (simp add: Let_def st1_def st2_def split: option.splits)
      have tr2: "refminer_runs st2 = refminer_runs st @ [d]"
        by (simp add: st2_def st1_def split: option.splits)
      have rf2: "\<And>c. refactorings st2 c = None \<Longrightarrow> refactorings st c = None"
        by (auto simp: st2_def st1_def split: option.splits if_splits)
      from Cons.IH [of st2] obtain new where new:
        "refminer_runs (snd (extract_refactorings detect commits st2)) = refminer_runs st2 @ new"
        "\<forall>c \<in> set new. c \<in> set commits \<and> refactorings st2 c = None"
        by blast
      have "refminer_runs (snd (extract_refactorings detect (d # commits) st))
          = refminer_runs st @ (d # new)"
        using new(1) step tr2 by simp
      moreover have "\<forall>c \<in> set (d # new). c \<in> set (d # commits) \<and> refactorings st c = None"
        using new(2) rf2 False by auto
      ultimately show ?thesis by blast
    qed
  qed
qed

text \<open>
  C7. The cache is idempotent. Whatever the method does (return or raise), an entry
  that was in the cache before the call is the same after it, and RefactoringMiner is
  run during the call only on revisions of the argument that had no entry when the
  call began. The state outlives the call, so this holds for every later call of the
  process, whichever call tree it belongs to.
\<close>

theorem cache_idempotent:
  "(\<forall>c v. refactorings st c = Some v \<longrightarrow>
       refactorings (snd (extract_refactorings detect commits st)) c = Some v)
   \<and> (\<exists>new. refminer_runs (snd (extract_refactorings detect commits st)) = refminer_runs st @ new
       \<and> (\<forall>c \<in> set new. c \<in> set commits \<and> refactorings st c = None))"
  using extract_refactorings_cached extract_refactorings_runs by blast

theorem cache_idempotent_witness:
  "refactorings cached_state ''a'' = Some (JArr [])
   \<and> refactorings (snd (extract_refactorings detector_times_out [''a'', ''b''] cached_state)) ''a''
       = Some (JArr [])
   \<and> refminer_runs (snd (extract_refactorings detector_times_out [''a'', ''b''] cached_state))
       = [''b'']"
  using cache_idempotent [of cached_state detector_times_out "[''a'', ''b'']"]
  by (simp add: cached_state_def detector_times_out_def)

text \<open>
  C2, evaluated where it fails. When RefactoringMiner exits with an error status for a
  revision, the handler of lines 41-42 stores nothing: after the call the revision has
  no entry, and the lookup of line 54 raises KeyError.
\<close>

theorem process_error_leaves_no_entry:
  "refactorings (snd (extract_refactorings detector_fails [''c''] empty_state)) ''c'' = None
   \<and> fst (extract_refactorings detector_fails [''c''] empty_state) = Inr ()
   \<and> fst (get_impacted_files detector_fails base_files_345 ''c'' empty_state) = Inl KeyError"
  by (simp add: get_impacted_files_def empty_state_def detector_fails_def base_files_345_def)

section \<open>Properties of the impacted files\<close>

text \<open>For a region of the expected shape, \<open>covers\<close> is the test of the spec.\<close>

lemma covers_region:
  "covers (JObj [(''filePath'', JStr p), (''startLine'', JInt a), (''endLine'', JInt b)]) path line
     = (p = path \<and> a \<le> line \<and> line \<le> b)"
  by (auto simp: covers_def in_region_def)

lemma lines_to_remove_Inr:
  "lines_to_remove r fp a b path ls = Inr rm \<Longrightarrow>
   rm = filter (\<lambda>l. in_region fp a b path l = Inr True) ls"
  by (induction ls arbitrary: rm) (auto split: sum.splits bool.splits if_splits)

lemma filter_not_in_filter:
  "filter (\<lambda>l. l \<notin> set (filter P ls)) ls = filter (\<lambda>l. \<not> P l) ls"
  by (rule filter_cong) auto

lemma strip_files_Inr:
  "strip_files r fp a b fs = Inr fs' \<Longrightarrow>
   fs' = map (strip (\<lambda>path l. in_region fp a b path l = Inr True)) fs"
proof (induction fs arbitrary: fs')
  case Nil
  then show ?case by simp
next
  case (Cons f fs)
  from Cons.prems obtain rm fs1 where
    rm: "lines_to_remove r fp a b (imp_file_path f) (imp_modified_lines f) = Inr rm"
    and s1: "strip_files r fp a b fs = Inr fs1"
    and fs': "fs' = f\<lparr>imp_modified_lines := filter (\<lambda>line. line \<notin> set rm) (imp_modified_lines f)\<rparr> # fs1"
    by (auto split: sum.splits)
  have "filter (\<lambda>line. line \<notin> set rm) (imp_modified_lines f)
      = filter (\<lambda>l. \<not> (in_region fp a b (imp_file_path f) l = Inr True)) (imp_modified_lines f)"
    unfolding lines_to_remove_Inr [OF rm] by (rule filter_not_in_filter)
  with fs' Cons.IH [OF s1] show ?case by (simp add: strip_def)
qed

lemma strip_strip:
  "strip h2 (strip h1 f) = strip (\<lambda>path l. h1 path l \<or> h2 path l) f"
  by (simp add: strip_def conj_commute)

lemma strip_locations_Inr:
  "strip_locations r ls fs = Inr fs' \<Longrightarrow>
   fs' = map (strip (\<lambda>path l. list_ex (\<lambda>loc. covers loc path l) ls)) fs"
proof (induction ls arbitrary: fs fs')
  case Nil
  then show ?case by (simp add: strip_def)
next
  case (Cons loc ls)
  from Cons.prems obtain fp a b fs1 where
    g: "py_getitem loc ''filePath'' = Inr fp" "py_getitem loc ''startLine'' = Inr a"
       "py_getitem loc ''endLine'' = Inr b"
    and s1: "strip_files r fp a b fs = Inr fs1"
    and s2: "strip_locations r ls fs1 = Inr fs'"
    by (auto split: sum.splits)
  have c: "\<And>path l. covers loc path l = (in_region fp a b path l = Inr True)"
    by (simp add: covers_def g)
  from strip_files_Inr [OF s1] Cons.IH [OF s2]
  show ?case by (simp add: strip_strip c comp_def)
qed

lemma strip_refactorings_Inr:
  "strip_refactorings rs fs = Inr fs' \<Longrightarrow>
   fs' = map (strip (\<lambda>path l. list_ex (\<lambda>loc. covers loc path l) (concat (map locations_of rs)))) fs"
proof (induction rs arbitrary: fs fs')
  case Nil
  then show ?case by (simp add: strip_def)
next
  case (Cons r rs)
  from Cons.prems obtain locs ls fs1 where
    g: "py_getitem r ''rightSideLocations'' = Inr locs" "py_iter locs = Inr ls"
    and s1: "strip_locations r ls fs = Inr fs1"
    and s2: "strip_refactorings rs fs1 = Inr fs'"
    by (auto split: sum.splits)
  have l: "locations_of r = ls" by (simp add: locations_of_def g)
  have "(\<lambda>path l. list_ex (\<lambda>loc. covers loc path l) ls
           \<or> list_ex (\<lambda>loc. covers loc path l) (concat (map locations_of rs)))
      = (\<lambda>path l. list_ex (\<lambda>loc. covers loc path l) (concat (map locations_of (r # rs))))"
    by (auto simp: fun_eq_iff list_ex_iff l)
  with strip_locations_Inr [OF s1] Cons.IH [OF s2]
  show ?case by (simp add: strip_strip comp_def)
qed

text \<open>
  C5. When \<open>get_impacted_files\<close> returns, the fix revision has a cache entry, and the
  result is the files of the base class, each without the lines that a region of that
  entry covers in that file, minus the files that have no line left. Only the entry
  of the fix revision enters.
\<close>

theorem impacted_files_filtered:
  assumes "fst (get_impacted_files detect base_impacted_files fix st) = Inr fs"
  shows "\<exists>files entry. base_impacted_files fix = Inr files
      \<and> refactorings (snd (get_impacted_files detect base_impacted_files fix st)) fix = Some entry
      \<and> fs = filter (\<lambda>f. imp_modified_lines f \<noteq> []) (map (strip (covered entry)) files)"
proof -
  obtain r st1 where e: "extract_refactorings detect [fix] st = (r, st1)"
    by (cases "extract_refactorings detect [fix] st")
  from assms e obtain files entry rs fs1 where
    b: "base_impacted_files fix = Inr files"
    and c: "refactorings st1 fix = Some entry"
    and i: "py_iter entry = Inr rs"
    and s: "strip_refactorings rs files = Inr fs1"
    and fs: "fs = filter (\<lambda>f. 0 < length (imp_modified_lines f)) fs1"
    and st': "snd (get_impacted_files detect base_impacted_files fix st) = st1"
    unfolding get_impacted_files_def
    by (auto split: sum.splits option.splits)
  have "covered entry = (\<lambda>path l. list_ex (\<lambda>loc. covers loc path l) (concat (map locations_of rs)))"
    by (simp add: covered_def regions_of_def i fun_eq_iff)
  with strip_refactorings_Inr [OF s] fs b c st' show ?thesis by simp
qed

text \<open>
  The two examples of the spec: lines 3, 4, 5 of \<open>f.java\<close> and a region 4-5 leave
  line 3; a region 3-5 removes the file.
\<close>

theorem impacted_files_filtered_witness:
  "fst (get_impacted_files (detector_region 4 5) base_files_345 ''fix'' empty_state)
     = Inr [\<lparr>imp_file_path = ''f.java'', imp_modified_lines = [3]\<rparr>]
   \<and> (\<exists>files entry. base_files_345 ''fix'' = Inr files
      \<and> refactorings (snd (get_impacted_files (detector_region 4 5) base_files_345 ''fix''
            empty_state)) ''fix'' = Some entry
      \<and> [\<lparr>imp_file_path = ''f.java'', imp_modified_lines = [3]\<rparr>]
          = filter (\<lambda>f. imp_modified_lines f \<noteq> []) (map (strip (covered entry)) files))
   \<and> fst (get_impacted_files (detector_region 3 5) base_files_345 ''fix'' empty_state) = Inr []"
proof -
  have h: "fst (get_impacted_files (detector_region 4 5) base_files_345 ''fix'' empty_state)
     = Inr [\<lparr>imp_file_path = ''f.java'', imp_modified_lines = [3]\<rparr>]"
    by (simp add: get_impacted_files_def detector_region_def base_files_345_def empty_state_def
        refminer_output_def region_def refactorings_of_data_def in_region_def)
  have h2: "fst (get_impacted_files (detector_region 3 5) base_files_345 ''fix'' empty_state)
     = Inr []"
    by (simp add: get_impacted_files_def detector_region_def base_files_345_def empty_state_def
        refminer_output_def region_def refactorings_of_data_def in_region_def)
  from impacted_files_filtered [OF h] h h2 show ?thesis by blast
qed

section \<open>Properties of the recursive blame\<close>

subsection \<open>The cases of one call and of one round of the loop\<close>

lemma after_Some_iff:
  "after evs x = Some (r, st, ev) \<longleftrightarrow> (\<exists>ev'. x = Some (r, st, ev') \<and> ev = evs @ ev')"
  by (cases x) (auto simp: after_def)

lemma after_None_iff: "after evs x = None \<longleftrightarrow> x = None"
  by (simp add: after_def)

lemma blame_0: "blame detect base opts 0 revision file_path modified_lines ign st = None"
  by simp

lemma blame_Suc_cases:
  assumes "blame detect base opts (Suc n) revision file_path modified_lines ign st = Some (r, st', evs)"
  obtains
    (base_raises) e where
      "base opts revision file_path modified_lines (map_option (\<lambda>a. heap st ! a) ign) = Inl e"
      "r = Inl e" "st' = st"
      "evs = [SuperBlame revision file_path modified_lines (map_option (\<lambda>a. heap st ! a) ign)]"
  | (extract_raises) cands e where
      "base opts revision file_path modified_lines (map_option (\<lambda>a. heap st ! a) ign) = Inr cands"
      "extract_refactorings detect (remdups (map bd_commit (remdups cands))) st = (Inl e, st')"
      "r = Inl e"
      "evs = [SuperBlame revision file_path modified_lines (map_option (\<lambda>a. heap st ! a) ign)]"
  | (filter_raises) cands e where
      "base opts revision file_path modified_lines (map_option (\<lambda>a. heap st ! a) ign) = Inr cands"
      "extract_refactorings detect (remdups (map bd_commit (remdups cands))) st = (Inr (), st')"
      "filter_candidates (refactorings st') (remdups cands) ({}, []) = Inl e"
      "r = Inl e"
      "evs = [SuperBlame revision file_path modified_lines (map_option (\<lambda>a. heap st ! a) ign)]"
  | (loop) cands st1 res to_reblame evs' where
      "base opts revision file_path modified_lines (map_option (\<lambda>a. heap st ! a) ign) = Inr cands"
      "extract_refactorings detect (remdups (map bd_commit (remdups cands))) st = (Inr (), st1)"
      "filter_candidates (refactorings st1) (remdups cands) ({}, []) = Inr (res, to_reblame)"
      "reblame_loop (blame detect base opts n) ign (map snd to_reblame) res st1 = Some (r, st', evs')"
      "evs = SuperBlame revision file_path modified_lines (map_option (\<lambda>a. heap st ! a) ign) # evs'"
  using assms
  by (auto simp: Let_def after_Some_iff split: sum.splits prod.splits)

lemma reblame_loop_Cons_cases:
  assumes "reblame_loop self_blame ign (c # cs) result st = Some (r, st', evs)"
  obtains
    (no_list) "ign = None" "r = Inl TypeError" "st' = st" "evs = []"
  | (guard) a evs' where "ign = Some a" "rc_rev c \<in> set (heap st ! a)"
      "reblame_loop self_blame ign cs result st = Some (r, st', evs')"
      "evs = CycleGuard (rc_rev c) (rc_file_path c) (rc_modified_lines c) # evs'"
  | (rec_raises) a e where "ign = Some a" "rc_rev c \<notin> set (heap st ! a)"
      "self_blame (rc_rev c) (rc_file_path c) (rc_modified_lines c) (Some (length (heap st)))
         (st\<lparr>heap := heap st @ [heap st ! a @ [rc_rev c]]\<rparr>) = Some (Inl e, st', evs)"
      "r = Inl e"
  | (rec_returns) a new st3 evs1 evs2 where "ign = Some a" "rc_rev c \<notin> set (heap st ! a)"
      "self_blame (rc_rev c) (rc_file_path c) (rc_modified_lines c) (Some (length (heap st)))
         (st\<lparr>heap := heap st @ [heap st ! a @ [rc_rev c]]\<rparr>) = Some (Inr new, st3, evs1)"
      "reblame_loop self_blame ign cs (result \<union> new) st3 = Some (r, st', evs2)"
      "evs = evs1 @ evs2"
  using assms
  by (auto simp: list_copy_def list_append_def after_Some_iff
      split: option.splits if_splits sum.splits prod.splits)

subsection \<open>Which candidates are accepted\<close>

lemma hit_simps [simp]:
  "hit b [] = False"
  "hit b (loc # ls) = (covers loc (bd_file_path b) (bd_line_num b) \<or> hit b ls)"
  "hit b (ls @ ls') = (hit b ls \<or> hit b ls')"
  by (auto simp: hit_def)

lemma scan_locations_can_add:
  "scan_locations b r ls (ca, tr) = Inr (ca', tr') \<Longrightarrow> ca' = (ca \<and> \<not> hit b ls)"
proof (induction ls arbitrary: ca tr)
  case Nil
  then show ?case by simp
next
  case (Cons loc ls)
  from Cons.prems obtain fp lo hi h where
    g: "py_getitem loc ''filePath'' = Inr fp" "py_getitem loc ''startLine'' = Inr lo"
       "py_getitem loc ''endLine'' = Inr hi"
    and h: "in_region fp lo hi (bd_file_path b) (bd_line_num b) = Inr h"
    by (auto split: sum.splits)
  have c: "covers loc (bd_file_path b) (bd_line_num b) = h"
    by (simp add: covers_def g h)
  show ?case
  proof (cases h)
    case True
    with Cons.prems g h
    have "scan_locations b r ls (False, add_reblame b tr) = Inr (ca', tr')"
      by (auto split: sum.splits)
    from Cons.IH [OF this] c True show ?thesis by simp
  next
    case False
    with Cons.prems g h have "scan_locations b r ls (ca, tr) = Inr (ca', tr')"
      by (auto split: sum.splits)
    from Cons.IH [OF this] c False show ?thesis by simp
  qed
qed

lemma scan_refactorings_can_add:
  "scan_refactorings b rs (ca, tr) = Inr (ca', tr') \<Longrightarrow>
   ca' = (ca \<and> \<not> hit b (concat (map locations_of rs)))"
proof (induction rs arbitrary: ca tr)
  case Nil
  then show ?case by simp
next
  case (Cons r rs)
  from Cons.prems obtain locs ls ca1 tr1 where
    g: "py_getitem r ''rightSideLocations'' = Inr locs" "py_iter locs = Inr ls"
    and s1: "scan_locations b r ls (ca, tr) = Inr (ca1, tr1)"
    and s2: "scan_refactorings b rs (ca1, tr1) = Inr (ca', tr')"
    by (auto split: sum.splits)
  have l: "locations_of r = ls" by (simp add: locations_of_def g)
  from scan_locations_can_add [OF s1] Cons.IH [OF s2] l show ?case by auto
qed

lemma filter_candidates_result:
  "filter_candidates cache bs (res0, tr0) = Inr (res, tr) \<Longrightarrow>
   res = res0 \<union> {b \<in> set bs. accepted cache b}"
proof (induction bs arbitrary: res0 tr0)
  case Nil
  then show ?case by simp
next
  case (Cons b bs)
  from Cons.prems obtain entry rs ca tr1 where
    c: "cache (bd_commit b) = Some entry" and i: "py_iter entry = Inr rs"
    and s: "scan_refactorings b rs (True, tr0) = Inr (ca, tr1)"
    and f: "filter_candidates cache bs (if ca then insert b res0 else res0, tr1) = Inr (res, tr)"
    by (auto split: option.splits sum.splits)
  have "accepted cache b = ca"
    using scan_refactorings_can_add [OF s]
    by (simp add: accepted_def c covered_def regions_of_def i hit_def)
  with Cons.IH [OF f] show ?case by auto
qed

subsection \<open>The state only grows\<close>

lemma extends_refl [simp]: "extends st st"
  by (simp add: extends_def)

lemma extends_trans: "extends st st1 \<Longrightarrow> extends st1 st2 \<Longrightarrow> extends st st2"
  by (auto simp: extends_def)

lemma extends_alloc [simp]: "extends st (st\<lparr>heap := heap st @ new\<rparr>)"
  by (simp add: extends_def)

lemma extract_refactorings_extends:
  "extends st (snd (extract_refactorings detect commits st))"
  using extract_refactorings_cached [of st _ _ detect commits]
    extract_refactorings_heap [of detect commits st]
    extract_refactorings_runs [of detect commits st]
  by (auto simp: extends_def)

lemma reblame_loop_extends:
  assumes rec: "\<And>rv fp ls ig s r s' ev. self_blame rv fp ls ig s = Some (r, s', ev) \<Longrightarrow> extends s s'"
  shows "reblame_loop self_blame ign cs result st = Some (r, st', evs) \<Longrightarrow> extends st st'"
proof (induction cs arbitrary: result st evs)
  case Nil
  then show ?case by simp
next
  case (Cons c cs)
  from Cons.prems show ?case
  proof (cases rule: reblame_loop_Cons_cases)
    case no_list
    then show ?thesis by simp
  next
    case (guard a evs')
    then show ?thesis using Cons.IH by blast
  next
    case (rec_raises a e)
    from rec [OF rec_raises(3)] show ?thesis
      using extends_alloc extends_trans by blast
  next
    case (rec_returns a new st3 evs1 evs2)
    from rec [OF rec_returns(3)] have "extends st st3"
      using extends_alloc extends_trans by blast
    with Cons.IH [OF rec_returns(4)] show ?thesis
      using extends_trans by blast
  qed
qed

lemma blame_extends:
  "blame detect base opts n revision file_path modified_lines ign st = Some (r, st', evs)
   \<Longrightarrow> extends st st'"
proof (induction n arbitrary: revision file_path modified_lines ign st r st' evs)
  case 0
  then show ?case by simp
next
  case (Suc n)
  from Suc.prems show ?case
  proof (cases rule: blame_Suc_cases)
    case (base_raises e)
    then show ?thesis by simp
  next
    case (extract_raises cands e)
    then show ?thesis using extract_refactorings_extends by (metis snd_conv)
  next
    case (filter_raises cands e)
    then show ?thesis using extract_refactorings_extends by (metis snd_conv)
  next
    case (loop cands st1 res to_reblame evs')
    have "extends st st1" using loop(2) extract_refactorings_extends by (metis snd_conv)
    moreover have "extends st1 st'"
      using reblame_loop_extends [OF Suc.IH loop(4)] .
    ultimately show ?thesis by (rule extends_trans)
  qed
qed

subsection \<open>Accepted attributions\<close>

lemma accepted_mono:
  "extends st st' \<Longrightarrow> accepted (refactorings st) a \<Longrightarrow> accepted (refactorings st') a"
  by (auto simp: extends_def accepted_def split: option.splits)

lemma reblame_loop_accepted:
  assumes rec: "\<And>rv fp ls ig s res s' ev. self_blame rv fp ls ig s = Some (Inr res, s', ev)
      \<Longrightarrow> \<forall>a \<in> res. accepted (refactorings s') a"
    and ext: "\<And>rv fp ls ig s r s' ev. self_blame rv fp ls ig s = Some (r, s', ev) \<Longrightarrow> extends s s'"
  shows "reblame_loop self_blame ign cs result st = Some (Inr res, st', evs)
    \<Longrightarrow> \<forall>a \<in> result. accepted (refactorings st) a
    \<Longrightarrow> \<forall>a \<in> res. accepted (refactorings st') a"
proof (induction cs arbitrary: result st evs)
  case Nil
  then show ?case by simp
next
  case (Cons c cs)
  from Cons.prems(1) show ?case
  proof (cases rule: reblame_loop_Cons_cases)
    case no_list
    then show ?thesis by simp
  next
    case (guard a evs')
    then show ?thesis using Cons.IH Cons.prems(2) by blast
  next
    case (rec_raises a e)
    then show ?thesis by simp
  next
    case (rec_returns a new st3 evs1 evs2)
    have e3: "extends st st3"
      using ext [OF rec_returns(3)] extends_alloc extends_trans by blast
    have "\<forall>a \<in> result \<union> new. accepted (refactorings st3) a"
      using rec [OF rec_returns(3)] Cons.prems(2) accepted_mono [OF e3] by blast
    from Cons.IH [OF rec_returns(4) this] show ?thesis .
  qed
qed

text \<open>
  C1. Every attribution that \<open>_blame\<close> returns, from whatever depth of the recursion,
  has a cache entry for its revision, and no region of any refactoring in that entry
  covers the attribution's file and line.
\<close>

theorem no_refactoring_attribution_survives:
  assumes "blame detect base opts n revision file_path modified_lines ign st
             = Some (Inr result, st', evs)"
    and "a \<in> result"
  shows "\<exists>entry. refactorings st' (bd_commit a) = Some entry
           \<and> \<not> covered entry (bd_file_path a) (bd_line_num a)"
proof -
  have "\<forall>a \<in> result. accepted (refactorings st') a"
    using assms(1)
  proof (induction n arbitrary: revision file_path modified_lines ign st result st' evs)
    case 0
    then show ?case by simp
  next
    case (Suc n)
    from Suc.prems show ?case
    proof (cases rule: blame_Suc_cases)
      case (loop cands st1 res to_reblame evs')
      have "\<forall>a \<in> res. accepted (refactorings st1) a"
        using filter_candidates_result [OF loop(3)] by simp
      from reblame_loop_accepted [OF Suc.IH blame_extends loop(4) this]
      show ?thesis .
    qed simp_all
  qed
  with assms(2) show ?thesis
    by (auto simp: accepted_def split: option.splits)
qed

theorem no_refactoring_attribution_survives_witness:
  "\<exists>st' evs.
     blame detector_B base_B () (Suc (Suc 0)) ''R2'' ''f.java'' [10] (Some 0) one_list_state
       = Some (Inr {attribution ''R0'' 10}, st', evs)
     \<and> attribution ''R0'' 10 \<in> {attribution ''R0'' 10}
     \<and> (\<exists>entry. refactorings st' (bd_commit (attribution ''R0'' 10)) = Some entry
          \<and> \<not> covered entry (bd_file_path (attribution ''R0'' 10))
                 (bd_line_num (attribution ''R0'' 10)))"
proof -
  have "\<exists>st' evs.
     blame detector_B base_B () (Suc (Suc 0)) ''R2'' ''f.java'' [10] (Some 0) one_list_state
       = Some (Inr {attribution ''R0'' 10}, st', evs)"
    by (simp add: attribution_def one_list_state_def base_B_def detector_B_def
      refminer_output_def region_def refactorings_of_data_def in_region_def
      add_reblame_def reblame_key_def list_copy_def list_append_def after_def)
  then obtain st' evs where e:
    "blame detector_B base_B () (Suc (Suc 0)) ''R2'' ''f.java'' [10] (Some 0) one_list_state
       = Some (Inr {attribution ''R0'' 10}, st', evs)"
    by blast
  from no_refactoring_attribution_survives [OF e, of "attribution ''R0'' 10"] e
  show ?thesis by blast
qed

subsection \<open>The requests\<close>

lemma requests_of_empty [simp]: "requests_of {} []"
  by (simp add: requests_of_def)

lemma add_reblame_keys:
  "map fst (add_reblame b tr) =
     (if reblame_key b \<in> set (map fst tr) then map fst tr else map fst tr @ [reblame_key b])"
  by (auto simp: add_reblame_def map_of_eq_None_iff split: prod.splits)

lemma map_of_map_value:
  "map_of (map (\<lambda>(k, c). if k = key then (k, f c) else (k, c)) tr) k =
     (if k = key then map_option f (map_of tr k) else map_of tr k)"
  by (induction tr) auto

lemma add_reblame_map_of:
  "map_of (add_reblame b tr) k =
     (if k = reblame_key b
      then Some (case map_of tr k of
             None \<Rightarrow> \<lparr>rc_rev = bd_commit b, rc_file_path = bd_file_path b,
                       rc_modified_lines = [bd_line_num b]\<rparr>
           | Some c \<Rightarrow> c\<lparr>rc_modified_lines := rc_modified_lines c @ [bd_line_num b]\<rparr>)
      else map_of tr k)"
proof (cases "map_of tr (reblame_key b) = None")
  case True
  then show ?thesis
    by (auto simp: add_reblame_def map_add_def split: option.splits)
next
  case False
  then show ?thesis
    unfolding add_reblame_def using map_of_map_value [of "reblame_key b" _ tr k]
    by (auto split: option.splits)
qed

lemma requests_of_add:
  assumes "requests_of S tr"
  shows "requests_of (insert b S) (add_reblame b tr)"
proof -
  have d: "distinct (map fst (add_reblame b tr))"
    using assms by (simp add: add_reblame_keys requests_of_def)
  have "case map_of (add_reblame b tr) k of
            None \<Rightarrow> \<forall>b' \<in> insert b S. reblame_key b' \<noteq> k
          | Some c \<Rightarrow>
              (\<exists>b' \<in> insert b S. reblame_key b' = k \<and> bd_commit b' = rc_rev c
                  \<and> bd_file_path b' = rc_file_path c)
              \<and> set (rc_modified_lines c) = bd_line_num ` {b' \<in> insert b S. reblame_key b' = k}"
    for k
  proof (cases "k = reblame_key b")
    case True
    have s: "{b' \<in> insert b S. reblame_key b' = k} = insert b {b' \<in> S. reblame_key b' = k}"
      using True by auto
    from assms have "case map_of tr k of
            None \<Rightarrow> \<forall>b \<in> S. reblame_key b \<noteq> k
          | Some c \<Rightarrow>
              (\<exists>b \<in> S. reblame_key b = k \<and> bd_commit b = rc_rev c \<and> bd_file_path b = rc_file_path c)
              \<and> set (rc_modified_lines c) = bd_line_num ` {b \<in> S. reblame_key b = k}"
      by (simp add: requests_of_def)
    then show ?thesis
      using True by (auto simp: add_reblame_map_of s split: option.splits)
  next
    case False
    have s: "{b' \<in> insert b S. reblame_key b' = k} = {b' \<in> S. reblame_key b' = k}"
      using False by auto
    from assms have "case map_of tr k of
            None \<Rightarrow> \<forall>b \<in> S. reblame_key b \<noteq> k
          | Some c \<Rightarrow>
              (\<exists>b \<in> S. reblame_key b = k \<and> bd_commit b = rc_rev c \<and> bd_file_path b = rc_file_path c)
              \<and> set (rc_modified_lines c) = bd_line_num ` {b \<in> S. reblame_key b = k}"
      by (simp add: requests_of_def)
    then show ?thesis
      using False by (auto simp: add_reblame_map_of s split: option.splits)
  qed
  with d show ?thesis by (simp add: requests_of_def)
qed

lemma scan_locations_requests:
  "scan_locations b r ls (ca, tr) = Inr (ca', tr') \<Longrightarrow> requests_of S tr \<Longrightarrow>
   requests_of (if hit b ls then insert b S else S) tr'"
proof (induction ls arbitrary: ca tr S)
  case Nil
  then show ?case by simp
next
  case (Cons loc ls)
  from Cons.prems(1) obtain fp lo hi h where
    g: "py_getitem loc ''filePath'' = Inr fp" "py_getitem loc ''startLine'' = Inr lo"
       "py_getitem loc ''endLine'' = Inr hi"
    and h: "in_region fp lo hi (bd_file_path b) (bd_line_num b) = Inr h"
    by (auto split: sum.splits)
  have c: "covers loc (bd_file_path b) (bd_line_num b) = h"
    by (simp add: covers_def g h)
  show ?case
  proof (cases h)
    case True
    with Cons.prems(1) g h
    have "scan_locations b r ls (False, add_reblame b tr) = Inr (ca', tr')"
      by (auto split: sum.splits)
    from Cons.IH [OF this requests_of_add [OF Cons.prems(2)]] c True
    show ?thesis by (simp split: if_splits)
  next
    case False
    with Cons.prems(1) g h have "scan_locations b r ls (ca, tr) = Inr (ca', tr')"
      by (auto split: sum.splits)
    from Cons.IH [OF this Cons.prems(2)] c False show ?thesis by simp
  qed
qed

lemma scan_refactorings_requests:
  "scan_refactorings b rs (ca, tr) = Inr (ca', tr') \<Longrightarrow> requests_of S tr \<Longrightarrow>
   requests_of (if hit b (concat (map locations_of rs)) then insert b S else S) tr'"
proof (induction rs arbitrary: ca tr S)
  case Nil
  then show ?case by simp
next
  case (Cons r rs)
  from Cons.prems(1) obtain locs ls ca1 tr1 where
    g: "py_getitem r ''rightSideLocations'' = Inr locs" "py_iter locs = Inr ls"
    and s1: "scan_locations b r ls (ca, tr) = Inr (ca1, tr1)"
    and s2: "scan_refactorings b rs (ca1, tr1) = Inr (ca', tr')"
    by (auto split: sum.splits)
  have l: "locations_of r = ls" by (simp add: locations_of_def g)
  from Cons.IH [OF s2 scan_locations_requests [OF s1 Cons.prems(2)]] l
  show ?case by (auto split: if_splits)
qed

lemma filter_candidates_requests:
  "filter_candidates cache bs (res0, tr0) = Inr (res, tr) \<Longrightarrow> requests_of S tr0 \<Longrightarrow>
   requests_of (S \<union> {b \<in> set bs. \<not> accepted cache b}) tr"
proof (induction bs arbitrary: res0 tr0 S)
  case Nil
  then show ?case by simp
next
  case (Cons b bs)
  from Cons.prems(1) obtain entry rs ca tr1 where
    c: "cache (bd_commit b) = Some entry" and i: "py_iter entry = Inr rs"
    and s: "scan_refactorings b rs (True, tr0) = Inr (ca, tr1)"
    and f: "filter_candidates cache bs (if ca then insert b res0 else res0, tr1) = Inr (res, tr)"
    by (auto split: option.splits sum.splits)
  have a: "accepted cache b = (\<not> hit b (concat (map locations_of rs)))"
    by (simp add: accepted_def c covered_def regions_of_def i hit_def)
  have "(if hit b (concat (map locations_of rs)) then insert b S else S) \<union> {b \<in> set bs. \<not> accepted cache b}
      = S \<union> {b' \<in> set (b # bs). \<not> accepted cache b'}"
    using a by auto
  with Cons.IH [OF f scan_refactorings_requests [OF s Cons.prems(2)]]
  show ?case by simp
qed

lemma filter_candidates_entries:
  "filter_candidates cache bs (res0, tr0) = Inr (res, tr) \<Longrightarrow> b \<in> set bs \<Longrightarrow>
   cache (bd_commit b) \<noteq> None"
proof (induction bs arbitrary: res0 tr0)
  case Nil
  then show ?case by simp
next
  case (Cons b' bs)
  from Cons.prems(1) obtain entry res1 tr1 where
    c: "cache (bd_commit b') = Some entry"
    and f: "filter_candidates cache bs (res1, tr1) = Inr (res, tr)"
    by (auto split: option.splits sum.splits)
  from Cons.prems(2) Cons.IH [OF f] c show ?case by auto
qed

lemma not_accepted_iff:
  "cache (bd_commit b) \<noteq> None \<Longrightarrow> (\<not> accepted cache b) = in_refactoring cache b"
  by (auto simp: accepted_def in_refactoring_def)

lemma reblame_key_inject:
  assumes "CHR ''@'' \<notin> set c1" "CHR ''@'' \<notin> set c2" "c1 @ ''@'' @ p1 = c2 @ ''@'' @ p2"
  shows "c1 = c2 \<and> p1 = p2"
  using assms
proof (induction c1 arbitrary: c2)
  case Nil
  then show ?case by (cases c2) auto
next
  case (Cons x c1)
  then show ?case by (cases c2) auto
qed

lemma requests_of_mem:
  assumes "requests_of S tr" "(k, c) \<in> set tr"
  shows "(\<exists>b \<in> S. reblame_key b = k \<and> bd_commit b = rc_rev c \<and> bd_file_path b = rc_file_path c)
       \<and> set (rc_modified_lines c) = bd_line_num ` {b \<in> S. reblame_key b = k}"
proof -
  from assms have "map_of tr k = Some c" by (simp add: requests_of_def)
  moreover from assms(1) have "case map_of tr k of
            None \<Rightarrow> \<forall>b \<in> S. reblame_key b \<noteq> k
          | Some c \<Rightarrow>
              (\<exists>b \<in> S. reblame_key b = k \<and> bd_commit b = rc_rev c \<and> bd_file_path b = rc_file_path c)
              \<and> set (rc_modified_lines c) = bd_line_num ` {b \<in> S. reblame_key b = k}"
    by (simp add: requests_of_def)
  ultimately show ?thesis by simp
qed

lemma requests_of_has:
  assumes "requests_of S tr" "b \<in> S"
  shows "\<exists>c. (reblame_key b, c) \<in> set tr"
proof -
  from assms(1) have "case map_of tr (reblame_key b) of
            None \<Rightarrow> \<forall>b' \<in> S. reblame_key b' \<noteq> reblame_key b
          | Some c \<Rightarrow>
              (\<exists>b' \<in> S. reblame_key b' = reblame_key b \<and> bd_commit b' = rc_rev c
                 \<and> bd_file_path b' = rc_file_path c)
              \<and> set (rc_modified_lines c) = bd_line_num ` {b' \<in> S. reblame_key b' = reblame_key b}"
    by (simp add: requests_of_def)
  with assms(2) have "map_of tr (reblame_key b) \<noteq> None"
    by (auto split: option.splits)
  then show ?thesis by (auto dest: map_of_SomeD)
qed

lemma requests_of_lines:
  assumes "requests_of S tr"
  shows "(\<Union>c \<in> set (map snd tr). set (rc_modified_lines c)) = bd_line_num ` S"
proof (intro equalityI subsetI)
  fix l assume "l \<in> (\<Union>c \<in> set (map snd tr). set (rc_modified_lines c))"
  then obtain k c where "(k, c) \<in> set tr" "l \<in> set (rc_modified_lines c)" by auto
  with requests_of_mem [OF assms] show "l \<in> bd_line_num ` S" by blast
next
  fix l assume "l \<in> bd_line_num ` S"
  then obtain b where b: "b \<in> S" "l = bd_line_num b" by auto
  from requests_of_has [OF assms b(1)] obtain c where c: "(reblame_key b, c) \<in> set tr" by blast
  from requests_of_mem [OF assms c] b have "l \<in> set (rc_modified_lines c)" by auto
  with c show "l \<in> (\<Union>c \<in> set (map snd tr). set (rc_modified_lines c))" by force
qed

lemma requests_grouped_sets:
  assumes f: "filter_candidates cache candidates ({}, []) = Inr (result, to_reblame)"
    and at: "\<forall>b \<in> set candidates. CHR ''@'' \<notin> set (bd_commit b)"
  shows "distinct (map (\<lambda>(k, c). (rc_rev c, rc_file_path c)) to_reblame)
     \<and> (\<forall>(k, c) \<in> set to_reblame.
          k = rc_rev c @ ''@'' @ rc_file_path c
          \<and> rc_modified_lines c \<noteq> []
          \<and> set (rc_modified_lines c) =
              bd_line_num ` {b \<in> set candidates. in_refactoring cache b
                               \<and> bd_commit b = rc_rev c \<and> bd_file_path b = rc_file_path c})
     \<and> (\<forall>b \<in> set candidates. in_refactoring cache b \<longrightarrow>
          (\<exists>(k, c) \<in> set to_reblame. rc_rev c = bd_commit b \<and> rc_file_path c = bd_file_path b))"
proof -
  define S where "S = {b \<in> set candidates. in_refactoring cache b}"
  have S: "S = {} \<union> {b \<in> set candidates. \<not> accepted cache b}"
    using filter_candidates_entries [OF f] not_accepted_iff by (auto simp: S_def)
  have r: "requests_of S to_reblame"
    unfolding S using filter_candidates_requests [OF f requests_of_empty] .
  have atS: "\<And>b. b \<in> S \<Longrightarrow> CHR ''@'' \<notin> set (bd_commit b)"
    using at by (simp add: S_def)
  have key: "\<And>b b'. b \<in> S \<Longrightarrow> b' \<in> S \<Longrightarrow>
      (reblame_key b = reblame_key b') = (bd_commit b = bd_commit b' \<and> bd_file_path b = bd_file_path b')"
  proof -
    fix b b' assume "b \<in> S" "b' \<in> S"
    then have "CHR ''@'' \<notin> set (bd_commit b)" "CHR ''@'' \<notin> set (bd_commit b')"
      using atS by auto
    from reblame_key_inject [OF this, of "bd_file_path b" "bd_file_path b'"]
    show "(reblame_key b = reblame_key b')
        = (bd_commit b = bd_commit b' \<and> bd_file_path b = bd_file_path b')"
      by (auto simp: reblame_key_def)
  qed
  have mem: "k = rc_rev c @ ''@'' @ rc_file_path c \<and> rc_modified_lines c \<noteq> []
      \<and> set (rc_modified_lines c) =
           bd_line_num ` {b \<in> S. bd_commit b = rc_rev c \<and> bd_file_path b = rc_file_path c}"
    if "(k, c) \<in> set to_reblame" for k c
  proof -
    from requests_of_mem [OF r that] obtain b where
      b: "b \<in> S" "reblame_key b = k" "bd_commit b = rc_rev c" "bd_file_path b = rc_file_path c"
      and l: "set (rc_modified_lines c) = bd_line_num ` {b \<in> S. reblame_key b = k}"
      by blast
    have "{b' \<in> S. reblame_key b' = k} = {b' \<in> S. bd_commit b' = rc_rev c \<and> bd_file_path b' = rc_file_path c}"
      using key [OF _ b(1)] b by auto
    moreover have "set (rc_modified_lines c) \<noteq> {}"
      using l b by auto
    ultimately show ?thesis using b l by (auto simp: reblame_key_def)
  qed
  have inj: "inj_on (\<lambda>(k, c). (rc_rev c, rc_file_path c)) (set to_reblame)"
  proof (rule inj_onI, clarify)
    fix k c k' c'
    assume m: "(k, c) \<in> set to_reblame" "(k', c') \<in> set to_reblame"
      and e: "rc_rev c = rc_rev c'" "rc_file_path c = rc_file_path c'"
    from mem [OF m(1)] mem [OF m(2)] e have k: "k = k'" by simp
    from r have "distinct (map fst to_reblame)" by (simp add: requests_of_def)
    from map_of_is_SomeI [OF this m(1)] map_of_is_SomeI [OF this m(2)] k
    have "c = c'" by simp
    with k show "k = k' \<and> c = c'" by simp
  qed
  from r have "distinct to_reblame"
    by (simp add: requests_of_def distinct_map)
  with inj have d: "distinct (map (\<lambda>(k, c). (rc_rev c, rc_file_path c)) to_reblame)"
    by (simp add: distinct_map)
  have has: "\<exists>(k, c) \<in> set to_reblame. rc_rev c = bd_commit b \<and> rc_file_path c = bd_file_path b"
    if "b \<in> S" for b
  proof -
    from requests_of_has [OF r that] obtain c where c: "(reblame_key b, c) \<in> set to_reblame"
      by blast
    from requests_of_mem [OF r c] obtain b' where
      b': "b' \<in> S" "reblame_key b' = reblame_key b" "bd_commit b' = rc_rev c"
        "bd_file_path b' = rc_file_path c"
      by blast
    with key [OF b'(1) that] c show ?thesis by auto
  qed
  show ?thesis
  proof (intro conjI)
    show "distinct (map (\<lambda>(k, c). (rc_rev c, rc_file_path c)) to_reblame)" by (rule d)
    show "\<forall>(k, c) \<in> set to_reblame.
          k = rc_rev c @ ''@'' @ rc_file_path c
          \<and> rc_modified_lines c \<noteq> []
          \<and> set (rc_modified_lines c) =
              bd_line_num ` {b \<in> set candidates. in_refactoring cache b
                               \<and> bd_commit b = rc_rev c \<and> bd_file_path b = rc_file_path c}"
    proof (clarify, intro conjI)
      fix k c assume m: "(k, c) \<in> set to_reblame"
      from mem [OF m] show "k = rc_rev c @ ''@'' @ rc_file_path c" by simp
      from mem [OF m] show "rc_modified_lines c \<noteq> []" by simp
      have "{b \<in> S. bd_commit b = rc_rev c \<and> bd_file_path b = rc_file_path c}
          = {b \<in> set candidates. in_refactoring cache b
                               \<and> bd_commit b = rc_rev c \<and> bd_file_path b = rc_file_path c}"
        by (auto simp: S_def)
      with mem [OF m] show "set (rc_modified_lines c) =
              bd_line_num ` {b \<in> set candidates. in_refactoring cache b
                               \<and> bd_commit b = rc_rev c \<and> bd_file_path b = rc_file_path c}"
        by simp
    qed
    show "\<forall>b \<in> set candidates. in_refactoring cache b \<longrightarrow>
          (\<exists>(k, c) \<in> set to_reblame. rc_rev c = bd_commit b \<and> rc_file_path c = bd_file_path b)"
      using has by (simp add: S_def)
  qed
qed

lemma appended_simps [simp]:
  "appended b [] k = []"
  "appended b (ls @ ls') k = appended b ls k @ appended b ls' k"
  by (simp_all add: appended_def replicate_add)

lemma request_lines_add:
  "request_lines (add_reblame b tr) k =
     request_lines tr k @ (if k = reblame_key b then [bd_line_num b] else [])"
  by (simp add: request_lines_def add_reblame_map_of split: option.splits)

lemma scan_locations_lines:
  "scan_locations b r ls (ca, tr) = Inr (ca', tr') \<Longrightarrow>
   request_lines tr' k = request_lines tr k @ appended b ls k"
proof (induction ls arbitrary: ca tr)
  case Nil
  then show ?case by simp
next
  case (Cons loc ls)
  from Cons.prems obtain fp lo hi h where
    g: "py_getitem loc ''filePath'' = Inr fp" "py_getitem loc ''startLine'' = Inr lo"
       "py_getitem loc ''endLine'' = Inr hi"
    and h: "in_region fp lo hi (bd_file_path b) (bd_line_num b) = Inr h"
    by (auto split: sum.splits)
  have c: "covers loc (bd_file_path b) (bd_line_num b) = h"
    by (simp add: covers_def g h)
  show ?case
  proof (cases h)
    case True
    with Cons.prems g h
    have "scan_locations b r ls (False, add_reblame b tr) = Inr (ca', tr')"
      by (auto split: sum.splits)
    from Cons.IH [OF this] c True show ?thesis
      by (simp add: request_lines_add appended_def)
  next
    case False
    with Cons.prems g h have "scan_locations b r ls (ca, tr) = Inr (ca', tr')"
      by (auto split: sum.splits)
    from Cons.IH [OF this] c False show ?thesis by (simp add: appended_def)
  qed
qed

lemma scan_refactorings_lines:
  "scan_refactorings b rs (ca, tr) = Inr (ca', tr') \<Longrightarrow>
   request_lines tr' k = request_lines tr k @ appended b (concat (map locations_of rs)) k"
proof (induction rs arbitrary: ca tr)
  case Nil
  then show ?case by simp
next
  case (Cons r rs)
  from Cons.prems obtain locs ls ca1 tr1 where
    g: "py_getitem r ''rightSideLocations'' = Inr locs" "py_iter locs = Inr ls"
    and s1: "scan_locations b r ls (ca, tr) = Inr (ca1, tr1)"
    and s2: "scan_refactorings b rs (ca1, tr1) = Inr (ca', tr')"
    by (auto split: sum.splits)
  have l: "locations_of r = ls" by (simp add: locations_of_def g)
  from scan_locations_lines [OF s1, of k] Cons.IH [OF s2] l show ?case by simp
qed

lemma filter_candidates_lines:
  "filter_candidates cache bs (res0, tr0) = Inr (res, tr) \<Longrightarrow>
   request_lines tr k = request_lines tr0 k
     @ concat (map (\<lambda>b. replicate (length (covering cache b)) (bd_line_num b))
         (filter (\<lambda>b. reblame_key b = k) bs))"
proof (induction bs arbitrary: res0 tr0)
  case Nil
  then show ?case by simp
next
  case (Cons b bs)
  from Cons.prems obtain entry rs ca tr1 where
    c: "cache (bd_commit b) = Some entry" and i: "py_iter entry = Inr rs"
    and s: "scan_refactorings b rs (True, tr0) = Inr (ca, tr1)"
    and f: "filter_candidates cache bs (if ca then insert b res0 else res0, tr1) = Inr (res, tr)"
    by (auto split: option.splits sum.splits)
  have "covering cache b
      = filter (\<lambda>loc. covers loc (bd_file_path b) (bd_line_num b)) (concat (map locations_of rs))"
    by (simp add: covering_def c regions_of_def i)
  then have "appended b (concat (map locations_of rs)) k
      = (if reblame_key b = k then replicate (length (covering cache b)) (bd_line_num b) else [])"
    by (auto simp: appended_def)
  with scan_refactorings_lines [OF s, of k] Cons.IH [OF f] show ?case by simp
qed

text \<open>
  C6, as amended. The candidates that fall into a refactoring region are grouped by
  revision and path (revisions are hexadecimal digests, so none contains the separator
  of the key): no two requests share revision and path, every request has the key of
  its revision and path and at least one line, its lines are, as a set, the lines of
  all covered candidates with that revision and path, and every covered candidate has
  its request. The loop over the requests starts when this dictionary is complete.
  The list of a request is not a set: it holds, in the order in which the candidates
  are iterated, the line of every candidate with that revision and path once for
  every region of the revision that covers it.
\<close>

theorem reblame_requests_grouped:
  assumes f: "filter_candidates cache candidates ({}, []) = Inr (result, to_reblame)"
    and at: "\<forall>b \<in> set candidates. CHR ''@'' \<notin> set (bd_commit b)"
  shows "distinct (map (\<lambda>(k, c). (rc_rev c, rc_file_path c)) to_reblame)
     \<and> (\<forall>(k, c) \<in> set to_reblame.
          k = rc_rev c @ ''@'' @ rc_file_path c
          \<and> rc_modified_lines c \<noteq> []
          \<and> set (rc_modified_lines c) =
              bd_line_num ` {b \<in> set candidates. in_refactoring cache b
                               \<and> bd_commit b = rc_rev c \<and> bd_file_path b = rc_file_path c}
          \<and> rc_modified_lines c =
              concat (map (\<lambda>b. replicate (length (covering cache b)) (bd_line_num b))
                (filter (\<lambda>b. bd_commit b = rc_rev c \<and> bd_file_path b = rc_file_path c)
                   candidates)))
     \<and> (\<forall>b \<in> set candidates. in_refactoring cache b \<longrightarrow>
          (\<exists>(k, c) \<in> set to_reblame. rc_rev c = bd_commit b \<and> rc_file_path c = bd_file_path b))"
proof -
  note g = requests_grouped_sets [OF f at]
  have d: "distinct (map fst to_reblame)"
    using filter_candidates_requests [OF f requests_of_empty] by (simp add: requests_of_def)
  have lines: "rc_modified_lines c =
      concat (map (\<lambda>b. replicate (length (covering cache b)) (bd_line_num b))
        (filter (\<lambda>b. bd_commit b = rc_rev c \<and> bd_file_path b = rc_file_path c) candidates))"
    if m: "(k, c) \<in> set to_reblame" for k c
  proof -
    from g m have k: "k = rc_rev c @ ''@'' @ rc_file_path c"
      and ne: "rc_modified_lines c \<noteq> []"
      and s: "set (rc_modified_lines c) =
              bd_line_num ` {b \<in> set candidates. in_refactoring cache b
                               \<and> bd_commit b = rc_rev c \<and> bd_file_path b = rc_file_path c}"
      by auto
    from ne have "set (rc_modified_lines c) \<noteq> {}" by simp
    with s obtain b0 where "b0 \<in> set candidates" "bd_commit b0 = rc_rev c" by auto
    with at have a0: "CHR ''@'' \<notin> set (rc_rev c)" by auto
    have eq: "(reblame_key b = k) = (bd_commit b = rc_rev c \<and> bd_file_path b = rc_file_path c)"
      if "b \<in> set candidates" for b
    proof -
      from that at have "CHR ''@'' \<notin> set (bd_commit b)" by simp
      from reblame_key_inject [OF this a0, of "bd_file_path b" "rc_file_path c"]
      show ?thesis by (auto simp: reblame_key_def k)
    qed
    have "map_of to_reblame k = Some c" using d m by simp
    then have "rc_modified_lines c = request_lines to_reblame k"
      by (simp add: request_lines_def)
    also have "\<dots> = concat (map (\<lambda>b. replicate (length (covering cache b)) (bd_line_num b))
         (filter (\<lambda>b. reblame_key b = k) candidates))"
      using filter_candidates_lines [OF f, of k] by (simp add: request_lines_def)
    also have "filter (\<lambda>b. reblame_key b = k) candidates
        = filter (\<lambda>b. bd_commit b = rc_rev c \<and> bd_file_path b = rc_file_path c) candidates"
      by (rule filter_cong) (simp_all add: eq)
    finally show ?thesis .
  qed
  show ?thesis
  proof (intro conjI)
    show "distinct (map (\<lambda>(k, c). (rc_rev c, rc_file_path c)) to_reblame)"
      using g by simp
    show "\<forall>(k, c) \<in> set to_reblame.
          k = rc_rev c @ ''@'' @ rc_file_path c
          \<and> rc_modified_lines c \<noteq> []
          \<and> set (rc_modified_lines c) =
              bd_line_num ` {b \<in> set candidates. in_refactoring cache b
                               \<and> bd_commit b = rc_rev c \<and> bd_file_path b = rc_file_path c}
          \<and> rc_modified_lines c =
              concat (map (\<lambda>b. replicate (length (covering cache b)) (bd_line_num b))
                (filter (\<lambda>b. bd_commit b = rc_rev c \<and> bd_file_path b = rc_file_path c)
                   candidates))"
    proof (clarify, intro conjI)
      fix k c assume m: "(k, c) \<in> set to_reblame"
      from g m show "k = rc_rev c @ ''@'' @ rc_file_path c" by auto
      from g m show "rc_modified_lines c \<noteq> []" by auto
      from g m show "set (rc_modified_lines c) =
              bd_line_num ` {b \<in> set candidates. in_refactoring cache b
                               \<and> bd_commit b = rc_rev c \<and> bd_file_path b = rc_file_path c}"
        by auto
      from lines [OF m] show "rc_modified_lines c =
              concat (map (\<lambda>b. replicate (length (covering cache b)) (bd_line_num b))
                (filter (\<lambda>b. bd_commit b = rc_rev c \<and> bd_file_path b = rc_file_path c)
                   candidates))" .
    qed
    show "\<forall>b \<in> set candidates. in_refactoring cache b \<longrightarrow>
          (\<exists>(k, c) \<in> set to_reblame. rc_rev c = bd_commit b \<and> rc_file_path c = bd_file_path b)"
      using g by simp
  qed
qed

theorem reblame_requests_grouped_witness:
  "filter_candidates cache_two_regions
      [attribution ''R1'' 10, attribution ''R1'' 20, attribution ''R1'' 12] ({}, [])
     = Inr ({attribution ''R1'' 20}, [(''R1@f.java'', request_R1 [10, 10, 12, 12])])
   \<and> list_all (\<lambda>b. CHR ''@'' \<notin> set (bd_commit b))
        [attribution ''R1'' 10, attribution ''R1'' 20, attribution ''R1'' 12]
   \<and> set (rc_modified_lines (request_R1 [10, 10, 12, 12])) =
        bd_line_num ` {b \<in> set [attribution ''R1'' 10, attribution ''R1'' 20, attribution ''R1'' 12].
           in_refactoring cache_two_regions b
           \<and> bd_commit b = rc_rev (request_R1 [10, 10, 12, 12])
           \<and> bd_file_path b = rc_file_path (request_R1 [10, 10, 12, 12])}
   \<and> rc_modified_lines (request_R1 [10, 10, 12, 12]) =
        concat (map (\<lambda>b. replicate (length (covering cache_two_regions b)) (bd_line_num b))
          (filter (\<lambda>b. bd_commit b = rc_rev (request_R1 [10, 10, 12, 12])
                      \<and> bd_file_path b = rc_file_path (request_R1 [10, 10, 12, 12]))
             [attribution ''R1'' 10, attribution ''R1'' 20, attribution ''R1'' 12]))
   \<and> map (\<lambda>b. length (covering cache_two_regions b))
        [attribution ''R1'' 10, attribution ''R1'' 20, attribution ''R1'' 12] = [2, 0, 2]"
proof -
  have f: "filter_candidates cache_two_regions
      [attribution ''R1'' 10, attribution ''R1'' 20, attribution ''R1'' 12] ({}, [])
     = Inr ({attribution ''R1'' 20}, [(''R1@f.java'', request_R1 [10, 10, 12, 12])])"
    by (simp add: cache_two_regions_def refactorings_entry_def region_def attribution_def
      request_R1_def in_region_def add_reblame_def reblame_key_def)
  have at: "\<forall>b \<in> set [attribution ''R1'' 10, attribution ''R1'' 20, attribution ''R1'' 12].
      CHR ''@'' \<notin> set (bd_commit b)"
    by (simp add: attribution_def)
  have n: "map (\<lambda>b. length (covering cache_two_regions b))
        [attribution ''R1'' 10, attribution ''R1'' 20, attribution ''R1'' 12] = [2, 0, 2]"
    by (simp add: covering_def cache_two_regions_def refactorings_entry_def region_def
      attribution_def regions_of_def locations_of_def covers_def in_region_def)
  have at': "list_all (\<lambda>b. CHR ''@'' \<notin> set (bd_commit b))
        [attribution ''R1'' 10, attribution ''R1'' 20, attribution ''R1'' 12]"
    using at by (simp only: list_all_iff)
  have m: "(''R1@f.java'', request_R1 [10, 10, 12, 12])
      \<in> set [(''R1@f.java'', request_R1 [10, 10, 12, 12])]"
    by simp
  from reblame_requests_grouped [OF f at]
  have "\<forall>(k, c) \<in> set [(''R1@f.java'', request_R1 [10, 10, 12, 12])].
          k = rc_rev c @ ''@'' @ rc_file_path c
          \<and> rc_modified_lines c \<noteq> []
          \<and> set (rc_modified_lines c) =
              bd_line_num ` {b \<in> set [attribution ''R1'' 10, attribution ''R1'' 20,
                                      attribution ''R1'' 12].
                               in_refactoring cache_two_regions b
                               \<and> bd_commit b = rc_rev c \<and> bd_file_path b = rc_file_path c}
          \<and> rc_modified_lines c =
              concat (map (\<lambda>b. replicate (length (covering cache_two_regions b)) (bd_line_num b))
                (filter (\<lambda>b. bd_commit b = rc_rev c \<and> bd_file_path b = rc_file_path c)
                   [attribution ''R1'' 10, attribution ''R1'' 20, attribution ''R1'' 12]))"
    by (rule conjunct1 [OF conjunct2])
  note c = bspec [OF this m, unfolded prod.case]
  note S = conjunct1 [OF conjunct2 [OF conjunct2 [OF c]]]
  note L = conjunct2 [OF conjunct2 [OF conjunct2 [OF c]]]
  show ?thesis by (intro conjI f at' S L n)
qed

text \<open>
  C6 as stated fails: line 10 lies in two regions of \<open>R1\<close> and is put twice into the
  one request. And the key is the plain concatenation \<open>hexsha + "@" + file_path\<close>:
  for revisions that are arbitrary strings, attributions with different revision and
  path can share a key and then share a request.
\<close>

theorem request_lines_repeat_counterexample:
  "filter_candidates cache_two_regions [attribution ''R1'' 10] ({}, [])
     = Inr ({}, [(''R1@f.java'', request_R1 [10, 10])])
   \<and> \<not> distinct (rc_modified_lines (request_R1 [10, 10]))
   \<and> filter_candidates cache_collision
        [\<lparr>bd_commit = ''a@b'', bd_line_num = 1, bd_line_str = ''x'', bd_file_path = ''c''\<rparr>,
         \<lparr>bd_commit = ''a'', bd_line_num = 2, bd_line_str = ''x'', bd_file_path = ''b@c''\<rparr>]
        ({}, [])
     = Inr ({}, [(''a@b@c'',
          \<lparr>rc_rev = ''a@b'', rc_file_path = ''c'', rc_modified_lines = [1, 2]\<rparr>)])"
  by (simp add: cache_two_regions_def cache_collision_def refactorings_entry_def region_def
      region_in_def attribution_def request_R1_def in_region_def add_reblame_def reblame_key_def)

subsection \<open>No ignore list\<close>

text \<open>
  C10. With \<open>ignore_revs_list\<close> left at \<open>None\<close>, a call whose candidates are found
  and scanned without an exception raises TypeError as soon as one candidate falls
  into a refactoring region: the first round of the loop applies \<open>in\<close> to \<open>None\<close>.
\<close>

theorem blame_without_ignore_list_raises:
  assumes b: "base opts revision file_path modified_lines None = Inr cands"
    and e: "extract_refactorings detect (remdups (map bd_commit (remdups cands))) st = (Inr (), st1)"
    and f: "filter_candidates (refactorings st1) (remdups cands) ({}, []) = Inr (res, to_reblame)"
    and c: "\<exists>b \<in> set cands. in_refactoring (refactorings st1) b"
  shows "blame detect base opts (Suc n) revision file_path modified_lines None st
     = Some (Inl TypeError, st1, [SuperBlame revision file_path modified_lines None])"
proof -
  from c obtain b' where b': "b' \<in> set (remdups cands)" "in_refactoring (refactorings st1) b'"
    by auto
  have "\<not> accepted (refactorings st1) b'"
    using b' filter_candidates_entries [OF f b'(1)] not_accepted_iff by blast
  with b' have "b' \<in> {} \<union> {b \<in> set (remdups cands). \<not> accepted (refactorings st1) b}" by simp
  from requests_of_has [OF filter_candidates_requests [OF f requests_of_empty] this]
  obtain rq rqs where "map snd to_reblame = rq # rqs"
    by (cases to_reblame) auto
  then have "reblame_loop (blame detect base opts n) None (map snd to_reblame) res st1
      = Some (Inl TypeError, st1, [])"
    by simp
  with b e f show ?thesis by (simp add: after_def)
qed

theorem blame_without_ignore_list_raises_witness:
  "map_option fst (blame detector_B base_B () (Suc 0) ''R2'' ''f.java'' [10] None one_list_state)
     = Some (Inl TypeError)"
proof -
  obtain u st1 where e: "extract_refactorings detector_B
      (remdups (map bd_commit (remdups [attribution ''R1'' 10]))) one_list_state = (u, st1)"
    by (cases "extract_refactorings detector_B
      (remdups (map bd_commit (remdups [attribution ''R1'' 10]))) one_list_state")
  have u: "u = Inr ()" and st1: "refactorings st1 = [''R1'' \<mapsto> refactorings_entry [region 5 15]]"
    using e by (auto simp: attribution_def one_list_state_def detector_B_def
      refminer_output_def refactorings_entry_def region_def refactorings_of_data_def)
  have b: "base_B () ''R2'' ''f.java'' [10] None = Inr [attribution ''R1'' 10]"
    by (simp add: base_B_def)
  have f: "filter_candidates (refactorings st1) (remdups [attribution ''R1'' 10]) ({}, [])
     = Inr ({}, [(''R1@f.java'', request_R1 [10])])"
    by (simp add: st1 refactorings_entry_def region_def attribution_def
      request_R1_def in_region_def add_reblame_def reblame_key_def)
  have c: "\<exists>b \<in> set [attribution ''R1'' 10]. in_refactoring (refactorings st1) b"
    by (simp add: st1 in_refactoring_def covered_def regions_of_def locations_of_def covers_def
      refactorings_entry_def region_def attribution_def in_region_def)
  from blame_without_ignore_list_raises [where base = base_B and opts = "()"
      and revision = "''R2''" and file_path = "''f.java''" and modified_lines = "[10]"
      and n = 0, OF b e [unfolded u] f c]
  show ?thesis by simp
qed

subsection \<open>Termination\<close>

lemma on_path_self: "on_path ig (SuperBlame r p ls ig)"
  by (simp add: on_path_def split: option.splits)

lemma on_path_extend:
  assumes "on_path (Some (l @ [r])) e" "r \<notin> set l"
  shows "on_path (Some l) e"
proof (cases e)
  case (SuperBlame rv p ls ig)
  with assms(1) obtain l' where ig: "ig = Some l'"
    and t: "take (Suc (length l)) l' = l @ [r]"
    and d: "distinct (drop (Suc (length l)) l')"
    and i: "set (drop (Suc (length l)) l') \<inter> set (l @ [r]) = {}"
    by (auto simp: on_path_def split: option.splits)
  from t have l': "l' = l @ r # drop (Suc (length l)) l'"
    by (metis append.assoc append_Cons append_Nil append_take_drop_id)
  have t': "take (length l) l' = l" by (subst l') simp
  have d': "drop (length l) l' = r # drop (Suc (length l)) l'" by (subst l') simp
  from d i assms(2) show ?thesis
    by (auto simp: on_path_def SuperBlame ig t' d')
next
  case (CycleGuard r p ls)
  then show ?thesis by (simp add: on_path_def)
qed

lemma extends_heap:
  "extends st st' \<Longrightarrow> a < length (heap st) \<Longrightarrow>
   heap st' ! a = heap st ! a \<and> a < length (heap st')"
  by (auto simp: extends_def nth_append)

lemma reblame_loop_on_path:
  assumes rec: "\<And>rv fp ls a' s r s' ev.
      self_blame rv fp ls (Some a') s = Some (r, s', ev) \<Longrightarrow> a' < length (heap s)
      \<Longrightarrow> \<forall>e \<in> set ev. on_path (Some (heap s ! a')) e"
    and ext: "\<And>rv fp ls ig s r s' ev. self_blame rv fp ls ig s = Some (r, s', ev) \<Longrightarrow> extends s s'"
  shows "reblame_loop self_blame ign cs result st = Some (r, st', evs) \<Longrightarrow> valid_ref ign st
    \<Longrightarrow> \<forall>e \<in> set evs. on_path (ignore_value ign st) e"
proof (induction cs arbitrary: result st evs)
  case Nil
  then show ?case by simp
next
  case (Cons c cs)
  from Cons.prems(1) show ?case
  proof (cases rule: reblame_loop_Cons_cases)
    case no_list
    then show ?thesis by simp
  next
    case (guard a evs')
    with Cons.IH [OF guard(3) Cons.prems(2)] show ?thesis by (simp add: on_path_def)
  next
    case (rec_raises a e)
    from Cons.prems(2) rec_raises(1) have a: "a < length (heap st)" by (simp add: valid_ref_def)
    from rec [OF rec_raises(3)] a
    have "\<forall>e \<in> set evs. on_path (Some (heap st ! a @ [rc_rev c])) e" by (simp add: nth_append)
    with rec_raises(1,2) show ?thesis
      using on_path_extend by (auto simp: ignore_value_def)
  next
    case (rec_returns a new st3 evs1 evs2)
    from Cons.prems(2) rec_returns(1) have a: "a < length (heap st)" by (simp add: valid_ref_def)
    from rec [OF rec_returns(3)] a
    have "\<forall>e \<in> set evs1. on_path (Some (heap st ! a @ [rc_rev c])) e" by (simp add: nth_append)
    with rec_returns(1,2) have 1: "\<forall>e \<in> set evs1. on_path (ignore_value ign st) e"
      using on_path_extend by (auto simp: ignore_value_def)
    have "extends st st3"
      using ext [OF rec_returns(3)] extends_alloc extends_trans by blast
    from extends_heap [OF this a] rec_returns(1)
    have v: "valid_ref ign st3" and i: "ignore_value ign st3 = ignore_value ign st"
      by (simp_all add: valid_ref_def ignore_value_def)
    from Cons.IH [OF rec_returns(4) v] i 1 rec_returns(5) show ?thesis by auto
  qed
qed

lemma blame_on_path:
  "blame detect base opts n revision file_path modified_lines ign st = Some (r, st', evs)
   \<Longrightarrow> valid_ref ign st \<Longrightarrow> \<forall>e \<in> set evs. on_path (ignore_value ign st) e"
proof (induction n arbitrary: revision file_path modified_lines ign st r st' evs)
  case 0
  then show ?case by simp
next
  case (Suc n)
  have self: "on_path (ignore_value ign st)
      (SuperBlame revision file_path modified_lines (map_option (\<lambda>a. heap st ! a) ign))"
    using on_path_self by (simp add: ignore_value_def)
  from Suc.prems(1) show ?case
  proof (cases rule: blame_Suc_cases)
    case (loop cands st1 res to_reblame evs')
    have h: "heap st1 = heap st"
      using extract_refactorings_heap [of detect _ st] loop(2) by (metis snd_conv)
    have v: "valid_ref ign st1" and i: "ignore_value ign st1 = ignore_value ign st"
      using Suc.prems(2) by (simp_all add: valid_ref_def ignore_value_def h split: option.splits)
    have "\<forall>e \<in> set evs'. on_path (ignore_value ign st1) e"
    proof (rule reblame_loop_on_path [OF _ blame_extends loop(4) v])
      fix rv fp ls a' s r s' ev
      assume "blame detect base opts n rv fp ls (Some a') s = Some (r, s', ev)"
        and "a' < length (heap s)"
      with Suc.IH [of rv fp ls "Some a'" s r s' ev]
      show "\<forall>e \<in> set ev. on_path (Some (heap s ! a')) e"
        by (simp add: valid_ref_def ignore_value_def)
    qed
    with i self loop(5) show ?thesis by simp
  qed (use self in simp_all)
qed

lemma card_Diff_snoc:
  assumes "r \<in> set revs" "r \<notin> set l"
  shows "card (set revs - set (l @ [r])) < card (set revs - set l)"
proof -
  have "set revs - set (l @ [r]) = (set revs - set l) - {r}" by auto
  moreover have "r \<in> set revs - set l" using assms by simp
  ultimately show ?thesis
    using card_Diff1_less [of "set revs - set l" r] by simp
qed

lemma reblame_loop_returns:
  assumes rec: "\<And>rv fp ls a' s. a' < length (heap s) \<Longrightarrow> card (set revs - set (heap s ! a')) < m
      \<Longrightarrow> self_blame rv fp ls (Some a') s \<noteq> None"
    and ext: "\<And>rv fp ls ig s r s' ev. self_blame rv fp ls ig s = Some (r, s', ev) \<Longrightarrow> extends s s'"
  shows "\<forall>c \<in> set cs. rc_rev c \<in> set revs \<Longrightarrow> valid_ref ign st
    \<Longrightarrow> (case ign of None \<Rightarrow> True | Some a \<Rightarrow> card (set revs - set (heap st ! a)) \<le> m)
    \<Longrightarrow> reblame_loop self_blame ign cs result st \<noteq> None"
proof (induction cs arbitrary: result st)
  case Nil
  then show ?case by simp
next
  case (Cons c cs)
  show ?case
  proof (cases ign)
    case None
    then show ?thesis by simp
  next
    case (Some a)
    with Cons.prems have a: "a < length (heap st)"
      and m: "card (set revs - set (heap st ! a)) \<le> m"
      and c: "rc_rev c \<in> set revs" and cs: "\<forall>c \<in> set cs. rc_rev c \<in> set revs"
      by (simp_all add: valid_ref_def)
    show ?thesis
    proof (cases "rc_rev c \<in> set (heap st ! a)")
      case True
      with Some Cons.IH [OF cs Cons.prems(2,3)] show ?thesis
        by (simp add: after_None_iff)
    next
      case False
      define s2 where "s2 = st\<lparr>heap := heap st @ [heap st ! a @ [rc_rev c]]\<rparr>"
      have "card (set revs - set (heap s2 ! length (heap st))) < m"
        using card_Diff_snoc [OF c False] m by (simp add: s2_def)
      moreover have "length (heap st) < length (heap s2)" by (simp add: s2_def)
      ultimately have "self_blame (rc_rev c) (rc_file_path c) (rc_modified_lines c)
          (Some (length (heap st))) s2 \<noteq> None"
        by (rule rec [rotated])
      then obtain r st3 evs where r: "self_blame (rc_rev c) (rc_file_path c) (rc_modified_lines c)
          (Some (length (heap st))) s2 = Some (r, st3, evs)"
        by (cases "self_blame (rc_rev c) (rc_file_path c) (rc_modified_lines c)
          (Some (length (heap st))) s2") auto
      have "extends st s2" by (simp add: s2_def)
      with ext [OF r] have "extends st st3" by (rule extends_trans [rotated])
      from extends_heap [OF this a] Some m
      have "valid_ref ign st3"
        "case ign of None \<Rightarrow> True | Some a \<Rightarrow> card (set revs - set (heap st3 ! a)) \<le> m"
        by (simp_all add: valid_ref_def)
      from Cons.IH [OF cs this] have "\<And>res. reblame_loop self_blame ign cs res st3 \<noteq> None" .
      with Some False r show ?thesis
        by (cases r) (simp_all add: list_copy_def list_append_def s2_def after_None_iff)
    qed
  qed
qed

lemma filter_candidates_revs:
  assumes "filter_candidates cache bs ({}, []) = Inr (res, tr)" "c \<in> set (map snd tr)"
  shows "rc_rev c \<in> bd_commit ` set bs"
proof -
  from assms(2) obtain k where "(k, c) \<in> set tr" by auto
  from requests_of_mem [OF filter_candidates_requests [OF assms(1) requests_of_empty] this]
  obtain b where "b \<in> set bs" "bd_commit b = rc_rev c" by auto
  then show ?thesis by (metis imageI)
qed

lemma blame_returns:
  assumes fin: "\<And>rv fp ls ig cands. base opts rv fp ls ig = Inr cands
      \<Longrightarrow> bd_commit ` set cands \<subseteq> set revs"
  shows "valid_ref ign st
    \<Longrightarrow> (case ign of None \<Rightarrow> 0 | Some a \<Rightarrow> card (set revs - set (heap st ! a))) < n
    \<Longrightarrow> blame detect base opts n revision file_path modified_lines ign st \<noteq> None"
proof (induction n arbitrary: revision file_path modified_lines ign st)
  case 0
  then show ?case by simp
next
  case (Suc n)
  show ?case
  proof (cases "base opts revision file_path modified_lines (map_option (\<lambda>a. heap st ! a) ign)")
    case (Inl e)
    then show ?thesis by (simp add: after_def)
  next
    case (Inr cands)
    obtain u st1 where e: "extract_refactorings detect (remdups (map bd_commit (remdups cands))) st
        = (u, st1)"
      by (cases "extract_refactorings detect (remdups (map bd_commit (remdups cands))) st")
    have h: "heap st1 = heap st"
      using extract_refactorings_heap [of detect _ st] e by (metis snd_conv)
    show ?thesis
    proof (cases u)
      case (Inl e')
      with Inr e show ?thesis by (simp add: after_def)
    next
      case u: (Inr x)
      show ?thesis
      proof (cases "filter_candidates (refactorings st1) (remdups cands) ({}, [])")
        case (Inl e')
        with Inr e u show ?thesis by (simp add: after_def)
      next
        case f: (Inr p)
        obtain res to_reblame where p: "p = (res, to_reblame)" by (cases p)
        have revs: "\<forall>c \<in> set (map snd to_reblame). rc_rev c \<in> set revs"
          using filter_candidates_revs [OF f [unfolded p]] fin [OF Inr] by auto
        have v: "valid_ref ign st1"
          using Suc.prems(1) by (simp add: valid_ref_def h split: option.splits)
        have m: "case ign of None \<Rightarrow> True | Some a \<Rightarrow> card (set revs - set (heap st1 ! a)) \<le> n"
          using Suc.prems(2) by (simp add: h split: option.splits)
        have "reblame_loop (blame detect base opts n) ign (map snd to_reblame) res st1 \<noteq> None"
        proof (rule reblame_loop_returns [OF _ blame_extends revs v m])
          fix rv fp ls a' and s :: state
          assume "a' < length (heap s)" "card (set revs - set (heap s ! a')) < n"
          with Suc.IH [of "Some a'" s rv fp ls]
          show "blame detect base opts n rv fp ls (Some a') s \<noteq> None"
            by (simp add: valid_ref_def)
        qed
        with Inr e u f p show ?thesis by (simp add: after_None_iff)
      qed
    qed
  qed
qed

lemma reblame_loop_mono:
  assumes rec: "\<And>rv fp ls ig s out. self_blame rv fp ls ig s = Some out
      \<Longrightarrow> self_blame' rv fp ls ig s = Some out"
  shows "reblame_loop self_blame ign cs result st = Some out
    \<Longrightarrow> reblame_loop self_blame' ign cs result st = Some out"
proof (induction cs arbitrary: result st out)
  case Nil
  then show ?case by simp
next
  case (Cons c cs)
  obtain r st' evs where out: "out = (r, st', evs)" by (cases out)
  from Cons.prems [unfolded out] show ?case
  proof (cases rule: reblame_loop_Cons_cases)
    case no_list
    then show ?thesis by (simp add: out)
  next
    case (guard a evs')
    from Cons.IH [OF guard(3)] guard(1,2,4) show ?thesis
      by (simp add: out after_def)
  next
    case (rec_raises a e)
    from rec [OF rec_raises(3)] rec_raises(1,2,4) show ?thesis
      by (simp add: out list_copy_def list_append_def)
  next
    case (rec_returns a new st3 evs1 evs2)
    from rec [OF rec_returns(3)] Cons.IH [OF rec_returns(4)] rec_returns(1,2,5) show ?thesis
      by (simp add: out list_copy_def list_append_def after_def)
  qed
qed

lemma blame_fuel_Suc:
  "blame detect base opts n revision file_path modified_lines ign st = Some out
   \<Longrightarrow> blame detect base opts (Suc n) revision file_path modified_lines ign st = Some out"
proof (induction n arbitrary: revision file_path modified_lines ign st out)
  case 0
  then show ?case by simp
next
  case (Suc n)
  obtain r st' evs where out: "out = (r, st', evs)" by (cases out)
  from Suc.prems [unfolded out] show ?case
  proof (cases rule: blame_Suc_cases)
    case (base_raises e)
    then show ?thesis by (simp add: out after_def)
  next
    case (extract_raises cands e)
    then show ?thesis by (simp add: out after_def)
  next
    case (filter_raises cands e)
    then show ?thesis by (simp add: out after_def)
  next
    case (loop cands st1 res to_reblame evs')
    from reblame_loop_mono [OF Suc.IH loop(4)] loop(1,2,3,5)
    show ?thesis by (simp add: out after_def)
  qed
qed

lemma blame_fuel_mono:
  "blame detect base opts n revision file_path modified_lines ign st = Some out \<Longrightarrow> n \<le> m
   \<Longrightarrow> blame detect base opts m revision file_path modified_lines ign st = Some out"
  by (induction m) (auto simp: le_Suc_eq dest: blame_fuel_Suc simp del: blame.simps)

text \<open>
  C3. In a repository with finitely many revisions (the base class names only
  revisions of the list \<open>revs\<close>), \<open>_blame\<close> terminates: every depth allowance above
  the number of revisions gives the same outcome, a result or an exception. Every
  ignore list that the base class gets during the call is the caller's list followed
  by revisions that are pairwise different and not in the caller's list, so a path
  never holds a revision twice and is no longer than the number of revisions.
\<close>

theorem blame_terminates:
  assumes fin: "\<forall>rv fp ls ig cands. base opts rv fp ls ig = Inr cands
      \<longrightarrow> bd_commit ` set cands \<subseteq> set revs"
    and v: "valid_ref ign st"
  shows "\<exists>out.
     (\<forall>n > length revs.
        blame detect base opts n revision file_path modified_lines ign st = Some out)
     \<and> (\<forall>e \<in> set (snd (snd out)). on_path (ignore_value ign st) e)"
proof -
  have "card (set revs - X) \<le> length revs" for X
    by (meson List.finite_set card_length card_mono Diff_subset le_trans)
  then have "(case ign of None \<Rightarrow> 0 | Some a \<Rightarrow> card (set revs - set (heap st ! a)))
      < Suc (length revs)"
    by (simp add: less_Suc_eq_le split: option.splits)
  with blame_returns [of base opts revs ign st "Suc (length revs)" detect revision file_path
      modified_lines] fin v
  obtain r st' evs where
    b: "blame detect base opts (Suc (length revs)) revision file_path modified_lines ign st
          = Some (r, st', evs)"
    by fastforce
  have "\<forall>n > length revs.
      blame detect base opts n revision file_path modified_lines ign st = Some (r, st', evs)"
    using blame_fuel_mono [OF b] by (simp add: Suc_le_eq)
  moreover have "\<forall>e \<in> set evs. on_path (ignore_value ign st) e"
    using blame_on_path [OF b v] .
  ultimately show ?thesis by (intro exI [of _ "(r, st', evs)"]) simp
qed

theorem blame_terminates_witness:
  "valid_ref (Some 0) one_list_state
   \<and> (\<exists>out. blame detector_B base_B () (Suc (Suc (Suc 0))) ''R2'' ''f.java'' [10] (Some 0)
              one_list_state = Some out
        \<and> list_all (on_path (ignore_value (Some 0) one_list_state)) (snd (snd out)))"
proof -
  have fin: "\<forall>rv fp ls ig cands. base_B () rv fp ls ig = Inr cands
      \<longrightarrow> bd_commit ` set cands \<subseteq> set [''R0'', ''R1'']"
    by (auto simp: base_B_def attribution_def split: if_splits)
  have v: "valid_ref (Some 0) one_list_state"
    by (simp add: valid_ref_def one_list_state_def)
  from blame_terminates [where base = base_B and opts = "()" and revs = "[''R0'', ''R1'']"
      and detect = detector_B and revision = "''R2''" and file_path = "''f.java''"
      and modified_lines = "[10]", OF fin v]
  obtain out where
    "\<forall>n > length [''R0'', ''R1''].
       blame detector_B base_B () n ''R2'' ''f.java'' [10] (Some 0) one_list_state = Some out"
    "\<forall>e \<in> set (snd (snd out)). on_path (ignore_value (Some 0) one_list_state) e"
    by blast
  then have "blame detector_B base_B () (Suc (Suc (Suc 0))) ''R2'' ''f.java'' [10] (Some 0)
      one_list_state = Some out
     \<and> list_all (on_path (ignore_value (Some 0) one_list_state)) (snd (snd out))"
    by (simp add: list_all_iff del: blame.simps)
  with v show ?thesis by blast
qed

subsection \<open>The cycle guard\<close>


lemma after_Nil [simp]: "after [] x = x"
  by (cases x) (auto simp: after_def)






subsection \<open>Every branch has its own ignore list\<close>

lemma with_heap_simps [simp]:
  "with_heap h None = None"
  "with_heap h (Some (r, st, evs)) = Some (r, st\<lparr>heap := h\<rparr>, evs)"
  by (simp_all add: with_heap_def)

lemma with_heap_after: "with_heap h (after evs x) = after evs (with_heap h x)"
  by (cases x) (auto simp: after_def)

lemma heap_update_last:
  "(st\<lparr>heap := h\<rparr>)\<lparr>refminer_runs := x\<rparr> = (st\<lparr>refminer_runs := x\<rparr>)\<lparr>heap := h\<rparr>"
  "(st\<lparr>heap := h\<rparr>)\<lparr>refactorings := y\<rparr> = (st\<lparr>refactorings := y\<rparr>)\<lparr>heap := h\<rparr>"
  by simp_all

lemma extract_refactorings_with_heap:
  "extract_refactorings detect commits (st\<lparr>heap := h\<rparr>)
     = (fst (extract_refactorings detect commits st),
        (snd (extract_refactorings detect commits st))\<lparr>heap := h\<rparr>)"
proof (induction commits arbitrary: st)
  case Nil
  then show ?case by simp
next
  case (Cons c commits)
  show ?case
  proof (cases "refactorings st c \<noteq> None")
    case True
    with Cons.IH [of st] show ?thesis by simp
  next
    case False
    show ?thesis
    proof (cases "try_refminer (detect (refminer_runs st) c)")
      case (Inl e)
      with False show ?thesis by (simp add: Let_def heap_update_last)
    next
      case (Inr v)
      show ?thesis
      proof (cases v)
        case None
        with False Inr
          Cons.IH [of "st\<lparr>refminer_runs := refminer_runs st @ [c]\<rparr>"]
        show ?thesis by (simp add: Let_def heap_update_last)
      next
        case (Some j)
        with False Inr
          Cons.IH [of "st\<lparr>refminer_runs := refminer_runs st @ [c],
             refactorings := (refactorings st)(c \<mapsto> j)\<rparr>"]
        show ?thesis by (simp add: Let_def heap_update_last)
      qed
    qed
  qed
qed

lemma reblame_loop_refines:
  assumes rec: "\<And>rv fp ls a' s h. a' < length (heap s) \<Longrightarrow>
      blame_rec rv fp ls (heap s ! a') (s\<lparr>heap := h\<rparr>)
        = with_heap h (self_blame rv fp ls (Some a') s)"
    and ext: "\<And>rv fp ls ig s r s' ev. self_blame rv fp ls ig s = Some (r, s', ev) \<Longrightarrow> extends s s'"
  shows "a < length (heap st) \<Longrightarrow>
    reblame_loop_spec blame_rec (heap st ! a) cs result (st\<lparr>heap := h\<rparr>)
      = with_heap h (reblame_loop self_blame (Some a) cs result st)"
proof (induction cs arbitrary: result st)
  case Nil
  then show ?case by simp
next
  case (Cons c cs)
  show ?case
  proof (cases "rc_rev c \<in> set (heap st ! a)")
    case True
    with Cons.IH [OF Cons.prems] show ?thesis
      by (simp add: with_heap_after)
  next
    case False
    define s2 where "s2 = st\<lparr>heap := heap st @ [heap st ! a @ [rc_rev c]]\<rparr>"
    have s2: "heap s2 ! length (heap st) = heap st ! a @ [rc_rev c]"
      "length (heap st) < length (heap s2)" "s2\<lparr>heap := h\<rparr> = st\<lparr>heap := h\<rparr>"
      by (simp_all add: s2_def)
    from rec [OF s2(2), of "rc_rev c" "rc_file_path c" "rc_modified_lines c" h]
    have r: "blame_rec (rc_rev c) (rc_file_path c) (rc_modified_lines c)
        (heap st ! a @ [rc_rev c]) (st\<lparr>heap := h\<rparr>)
        = with_heap h (self_blame (rc_rev c) (rc_file_path c) (rc_modified_lines c)
            (Some (length (heap st))) s2)"
      by (simp add: s2)
    show ?thesis
    proof (cases "self_blame (rc_rev c) (rc_file_path c) (rc_modified_lines c)
        (Some (length (heap st))) s2")
      case None
      with False r show ?thesis
        by (simp add: list_copy_def list_append_def s2_def)
    next
      case (Some out)
      obtain res st3 evs where out: "out = (res, st3, evs)" by (cases out)
      have "extends st s2" by (simp add: s2_def)
      with ext [OF Some [unfolded out]] have "extends st st3" by (rule extends_trans [rotated])
      from extends_heap [OF this Cons.prems]
      have h3: "heap st3 ! a = heap st ! a" and a3: "a < length (heap st3)" by simp_all
      from Cons.IH [OF a3] h3
      have "\<And>res'. reblame_loop_spec blame_rec (heap st ! a) cs res' (st3\<lparr>heap := h\<rparr>)
          = with_heap h (reblame_loop self_blame (Some a) cs res' st3)"
        by simp
      with False Some out r show ?thesis
        by (cases res)
          (simp_all add: list_copy_def list_append_def s2_def with_heap_after)
    qed
  qed
qed

lemma blame_refines:
  "a < length (heap st) \<Longrightarrow>
   blame_spec detect base opts n revision file_path modified_lines (heap st ! a) (st\<lparr>heap := h\<rparr>)
     = with_heap h (blame detect base opts n revision file_path modified_lines (Some a) st)"
proof (induction n arbitrary: revision file_path modified_lines a st h)
  case 0
  then show ?case by simp
next
  case (Suc n)
  show ?case
  proof (cases "base opts revision file_path modified_lines (Some (heap st ! a))")
    case (Inl e)
    then show ?thesis by (simp add: after_def)
  next
    case (Inr cands)
    obtain u st1 where e: "extract_refactorings detect (remdups (map bd_commit (remdups cands))) st
        = (u, st1)"
      by (cases "extract_refactorings detect (remdups (map bd_commit (remdups cands))) st")
    then have eh: "extract_refactorings detect (remdups (map bd_commit (remdups cands)))
        (st\<lparr>heap := h\<rparr>) = (u, st1\<lparr>heap := h\<rparr>)"
      by (simp add: extract_refactorings_with_heap)
    have h1: "heap st1 = heap st"
      using extract_refactorings_heap [of detect _ st] e by (metis snd_conv)
    show ?thesis
    proof (cases u)
      case (Inl e')
      with Inr e eh show ?thesis by (simp add: after_def)
    next
      case u: (Inr x)
      show ?thesis
      proof (cases "filter_candidates (refactorings st1) (remdups cands) ({}, [])")
        case (Inl e')
        with Inr e eh u show ?thesis by (simp add: after_def)
      next
        case f: (Inr p)
        obtain res to_reblame where p: "p = (res, to_reblame)" by (cases p)
        have a1: "a < length (heap st1)" using Suc.prems by (simp add: h1)
        have "reblame_loop_spec (blame_spec detect base opts n) (heap st1 ! a)
            (map snd to_reblame) res (st1\<lparr>heap := h\<rparr>)
          = with_heap h (reblame_loop (blame detect base opts n) (Some a)
              (map snd to_reblame) res st1)"
          by (rule reblame_loop_refines [OF Suc.IH blame_extends a1])
        with Inr e eh u f p h1 show ?thesis
          by (simp add: with_heap_after)
      qed
    qed
  qed
qed

text \<open>
  C8. A call of \<open>_blame\<close> with a reference to an ignore list changes no list object
  that existed before the call (it only allocates new ones), so the caller's list is
  the same afterwards. And the call behaves like the recursion of the spec, in which
  every branch is handed the value of the caller's list extended with exactly the
  revision of its request: same result or exception, same cache, same calls of the
  base class with the same ignore lists. No branch sees what a sibling appended.
\<close>

theorem ignore_list_copied_per_branch:
  assumes "a < length (heap st)"
  shows "(\<forall>r st' evs.
           blame detect base opts n revision file_path modified_lines (Some a) st
             = Some (r, st', evs)
           \<longrightarrow> (\<exists>new. heap st' = heap st @ new))
     \<and> blame_spec detect base opts n revision file_path modified_lines (heap st ! a) st
         = with_heap (heap st)
             (blame detect base opts n revision file_path modified_lines (Some a) st)"
proof -
  have "\<exists>new. heap st' = heap st @ new"
    if "blame detect base opts n revision file_path modified_lines (Some a) st
             = Some (r, st', evs)" for r st' evs
    using blame_extends [OF that] by (simp add: extends_def)
  moreover from blame_refines [OF assms, of detect base opts n revision file_path modified_lines
      "heap st"]
  have "blame_spec detect base opts n revision file_path modified_lines (heap st ! a) st
         = with_heap (heap st)
             (blame detect base opts n revision file_path modified_lines (Some a) st)"
    by simp
  ultimately show ?thesis by blast
qed

theorem ignore_list_copied_per_branch_witness:
  "0 < length (heap one_list_state)
   \<and> (\<exists>st'. blame detector_two base_two () (Suc (Suc 0)) ''R2'' ''f.java'' [10, 11] (Some 0)
               one_list_state
        = Some (Inr {attribution ''R0'' 10, attribution ''R0'' 11}, st',
            [SuperBlame ''R2'' ''f.java'' [10, 11] (Some []),
             SuperBlame ''R1'' ''f.java'' [10] (Some [''R1'']),
             SuperBlame ''R3'' ''f.java'' [11] (Some [''R3''])])
        \<and> heap st' = heap one_list_state @ [[''R1''], [''R3'']])
   \<and> blame_spec detector_two base_two () (Suc (Suc 0)) ''R2'' ''f.java'' [10, 11]
        (heap one_list_state ! 0) one_list_state
      = with_heap (heap one_list_state)
          (blame detector_two base_two () (Suc (Suc 0)) ''R2'' ''f.java'' [10, 11] (Some 0)
             one_list_state)"
proof -
  have a: "0 < length (heap one_list_state)" by (simp add: one_list_state_def)
  have "\<exists>st'. blame detector_two base_two () (Suc (Suc 0)) ''R2'' ''f.java'' [10, 11] (Some 0)
               one_list_state
        = Some (Inr {attribution ''R0'' 10, attribution ''R0'' 11}, st',
            [SuperBlame ''R2'' ''f.java'' [10, 11] (Some []),
             SuperBlame ''R1'' ''f.java'' [10] (Some [''R1'']),
             SuperBlame ''R3'' ''f.java'' [11] (Some [''R3''])])
        \<and> heap st' = heap one_list_state @ [[''R1''], [''R3'']]"
    by (simp add: attribution_def one_list_state_def base_two_def detector_two_def
      refminer_output_def region_def refactorings_of_data_def in_region_def
      add_reblame_def reblame_key_def list_copy_def list_append_def after_def insert_commute)
  with ignore_list_copied_per_branch [OF a, of detector_two base_two "()" "Suc (Suc 0)"
      "''R2''" "''f.java''" "[10, 11]"] a
  show ?thesis by blast
qed

subsection \<open>Conservation of lines\<close>

lemma dropped_lines_simps [simp]:
  "dropped_lines [] = {}"
  "dropped_lines (e # evs) = dropped e \<union> dropped_lines evs"
  "dropped_lines (evs @ evs') = dropped_lines evs \<union> dropped_lines evs'"
  by (auto simp: dropped_lines_def)

lemma reblame_loop_lines:
  assumes rec: "\<And>rv fp ls ig s new s' ev. self_blame rv fp ls ig s = Some (Inr new, s', ev)
      \<Longrightarrow> bd_line_num ` new \<union> dropped_lines ev = set ls"
  shows "reblame_loop self_blame ign cs result st = Some (Inr res, st', evs)
    \<Longrightarrow> bd_line_num ` res \<union> dropped_lines evs
        = bd_line_num ` result \<union> (\<Union>c \<in> set cs. set (rc_modified_lines c))"
proof (induction cs arbitrary: result st evs)
  case Nil
  then show ?case by auto
next
  case (Cons c cs)
  from Cons.prems show ?case
  proof (cases rule: reblame_loop_Cons_cases)
    case no_list
    then show ?thesis by simp
  next
    case (guard a evs')
    from Cons.IH [OF guard(3)] guard(4) show ?thesis by auto
  next
    case (rec_raises a e)
    then show ?thesis by simp
  next
    case (rec_returns a new st3 evs1 evs2)
    have A: "bd_line_num ` new \<union> dropped_lines evs1 = set (rc_modified_lines c)"
      by (rule rec [OF rec_returns(3)])
    have B: "bd_line_num ` res \<union> dropped_lines evs2
        = bd_line_num ` (result \<union> new) \<union> (\<Union>c \<in> set cs. set (rc_modified_lines c))"
      by (rule Cons.IH [OF rec_returns(4)])
    have "bd_line_num ` res \<union> dropped_lines evs
        = (bd_line_num ` res \<union> dropped_lines evs2) \<union> dropped_lines evs1"
      by (simp add: rec_returns(5) Un_ac)
    also have "\<dots> = bd_line_num ` result
        \<union> (bd_line_num ` new \<union> dropped_lines evs1)
        \<union> (\<Union>c \<in> set cs. set (rc_modified_lines c))"
      unfolding B by (simp add: image_Un Un_ac)
    also have "\<dots> = bd_line_num ` result
        \<union> (\<Union>c \<in> set (c # cs). set (rc_modified_lines c))"
      unfolding A by (simp add: Un_ac)
    finally show ?thesis .
  qed
qed

text \<open>
  C9, as amended. If the base class answers every call with attributions whose line
  numbers are exactly the lines it was asked for, then the line numbers of the
  attributions that \<open>_blame\<close> returns, together with the lines of the requests that
  the cycle guard dropped at any depth, are the lines that were passed in.
\<close>

theorem lines_conserved:
  assumes lp: "\<forall>rv fp ls ig cands. base opts rv fp ls ig = Inr cands
      \<longrightarrow> bd_line_num ` set cands = set ls"
    and b: "blame detect base opts n revision file_path modified_lines ign st
        = Some (Inr result, st', evs)"
  shows "bd_line_num ` result \<union> dropped_lines evs = set modified_lines"
  using b
proof (induction n arbitrary: revision file_path modified_lines ign st result st' evs)
  case 0
  then show ?case by simp
next
  case (Suc n)
  from Suc.prems show ?case
  proof (cases rule: blame_Suc_cases)
    case (loop cands st1 res to_reblame evs')
    have res: "res = {b \<in> set (remdups cands). accepted (refactorings st1) b}"
      using filter_candidates_result [OF loop(3)] by simp
    have "requests_of ({} \<union> {b \<in> set (remdups cands). \<not> accepted (refactorings st1) b}) to_reblame"
      using filter_candidates_requests [OF loop(3) requests_of_empty] .
    from requests_of_lines [OF this]
    have req: "(\<Union>c \<in> set (map snd to_reblame). set (rc_modified_lines c))
        = bd_line_num ` {b \<in> set cands. \<not> accepted (refactorings st1) b}"
      by simp
    have "bd_line_num ` result \<union> dropped_lines evs'
        = bd_line_num ` res \<union> (\<Union>c \<in> set (map snd to_reblame). set (rc_modified_lines c))"
      by (rule reblame_loop_lines [OF Suc.IH loop(4)])
    also have "\<dots> = bd_line_num ` set cands"
      unfolding req res by auto
    also have "\<dots> = set modified_lines"
      using lp loop(1) by blast
    finally show ?thesis using loop(5) by simp
  qed simp_all
qed

theorem lines_conserved_witness:
  "\<exists>st'. blame detector_B base_stuck () (Suc (Suc 0)) ''R2'' ''f.java'' [3, 10] (Some 0)
       one_list_state
     = Some (Inr {attribution ''R1'' 3}, st',
         [SuperBlame ''R2'' ''f.java'' [3, 10] (Some []),
          SuperBlame ''R1'' ''f.java'' [10] (Some [''R1'']),
          CycleGuard ''R1'' ''f.java'' [10]])
     \<and> bd_line_num ` {attribution ''R1'' 3}
        \<union> dropped_lines [SuperBlame ''R2'' ''f.java'' [3, 10] (Some []),
            SuperBlame ''R1'' ''f.java'' [10] (Some [''R1'']),
            CycleGuard ''R1'' ''f.java'' [10]]
       = set [3, 10]"
proof -
  have lp: "\<forall>rv fp ls ig cands. base_stuck () rv fp ls ig = Inr cands
      \<longrightarrow> bd_line_num ` set cands = set ls"
    by (auto simp: base_stuck_def attribution_def image_iff)
  have "\<exists>st'. blame detector_B base_stuck () (Suc (Suc 0)) ''R2'' ''f.java'' [3, 10] (Some 0)
       one_list_state
     = Some (Inr {attribution ''R1'' 3}, st',
         [SuperBlame ''R2'' ''f.java'' [3, 10] (Some []),
          SuperBlame ''R1'' ''f.java'' [10] (Some [''R1'']),
          CycleGuard ''R1'' ''f.java'' [10]])"
    by (simp add: attribution_def one_list_state_def base_stuck_def detector_B_def
      refminer_output_def region_def refactorings_of_data_def in_region_def
      add_reblame_def reblame_key_def list_copy_def list_append_def after_def)
  then obtain st' where b: "blame detector_B base_stuck () (Suc (Suc 0)) ''R2'' ''f.java'' [3, 10]
       (Some 0) one_list_state
     = Some (Inr {attribution ''R1'' 3}, st',
         [SuperBlame ''R2'' ''f.java'' [3, 10] (Some []),
          SuperBlame ''R1'' ''f.java'' [10] (Some [''R1'']),
          CycleGuard ''R1'' ''f.java'' [10]])"
    by blast
  from lines_conserved [where base = base_stuck and opts = "()", OF lp b] b
  show ?thesis by blast
qed

text \<open>
  C9 as stated fails: \<open>_blame\<close> returns the line numbers that the base class reports.
  Asked for line 10, a base class that finds the line as line 7 of \<open>R0\<close> makes the
  result hold line 7 and nothing else, and no request is dropped.
\<close>

theorem lines_not_conserved_counterexample:
  "(\<exists>st'. blame detector_B base_moved () (Suc 0) ''R2'' ''f.java'' [10] (Some 0) one_list_state
      = Some (Inr {attribution ''R0'' 7}, st', [SuperBlame ''R2'' ''f.java'' [10] (Some [])]))
   \<and> bd_line_num ` {attribution ''R0'' 7}
        \<union> dropped_lines [SuperBlame ''R2'' ''f.java'' [10] (Some [])]
      \<noteq> set [10]"
  by (simp add: attribution_def one_list_state_def base_moved_def detector_B_def
      refminer_output_def region_def refactorings_of_data_def in_region_def
      add_reblame_def reblame_key_def list_copy_def list_append_def after_def)

end
